theory Spec2Isabelle
  imports Main "HOL-Library.Word"
begin

unbundle bit_operations_syntax

section \<open>Scalar types and the byte store\<close>

text \<open>
  The ControlNet scalar types of \<^verbatim>\<open>ether_ip.h\<close>: \<^verbatim>\<open>CN_USINT\<close> is one octet,
  \<^verbatim>\<open>CN_UINT\<close> two, \<^verbatim>\<open>CN_UDINT\<close> four. Buffers are regions of a byte store,
  a pointer is the address of an octet. A \<^verbatim>\<open>size_t\<close> is a byte or item count
  of an object that exists in memory; it is modelled as a natural number, and
  every conversion of a count to a narrower type (\<^verbatim>\<open>CN_USINT\<close>, \<^verbatim>\<open>CN_UINT\<close>)
  is written out as the truncation the C conversion performs.
\<close>

type_synonym CN_USINT = "8 word"
type_synonym CN_UINT = "16 word"
type_synonym CN_UDINT = "32 word"
type_synonym memory = "nat \<Rightarrow> CN_USINT"

definition pack_USINT :: "memory \<Rightarrow> nat \<Rightarrow> CN_USINT \<Rightarrow> memory \<times> nat" where
  "pack_USINT m buffer val = (m(buffer := val), buffer + 1)"

definition pack_UINT :: "memory \<Rightarrow> nat \<Rightarrow> CN_UINT \<Rightarrow> memory \<times> nat" where
  "pack_UINT m buffer val =
     (m(buffer := ucast (val AND 0x00FF),
        buffer + 1 := ucast (drop_bit 8 (val AND 0xFF00))),
      buffer + 2)"

definition unpack_UINT :: "memory \<Rightarrow> nat \<Rightarrow> CN_UINT \<times> nat" where
  "unpack_UINT m buffer =
     (ucast (m buffer) OR push_bit 8 (ucast (m (buffer + 1))), buffer + 2)"

section \<open>Connection Manager: tick time\<close>

function calc_tick_loop :: "nat \<Rightarrow> CN_USINT \<Rightarrow> nat \<times> CN_USINT" where
  "calc_tick_loop millisec tick_time =
     (if millisec > 0xFF
      then calc_tick_loop (drop_bit 1 millisec) (tick_time + 1)
      else (millisec, tick_time))"
  by pat_completeness auto
termination
  by (relation "measure (\<lambda>(millisec, tick_time). millisec)") (auto simp: drop_bit_eq_div)

declare calc_tick_loop.simps [simp del]

text \<open>
  \<^verbatim>\<open>calc_tick_time\<close> writes through its two out parameters only when it
  succeeds; the second argument is what they hold before the call.
\<close>

definition calc_tick_time ::
  "nat \<Rightarrow> CN_USINT \<times> CN_USINT \<Rightarrow> bool \<times> CN_USINT \<times> CN_USINT" where
  "calc_tick_time millisec out =
     (if millisec > 8355840 then (False, fst out, snd out)
      else (let (millisec', tick_time) = calc_tick_loop millisec 0
            in (True, tick_time, of_nat millisec')))"

section \<open>Message Router: paths and requests\<close>

text \<open>
  Modelled from the spec: the numeric codes of \<^verbatim>\<open>CN_Classes\<close> and
  \<^verbatim>\<open>CN_Services\<close> are declared in \<^verbatim>\<open>ether_ip.h\<close>, which is not part of the
  sources at hand. The specification fixes them: the message router is class
  0x02, the connection manager class 0x06, \<^verbatim>\<open>CIP_MultiRequest\<close> is service
  0x0A and \<^verbatim>\<open>CM_Unconnected_Send\<close> service 0x52.
\<close>

definition C_MessageRouter :: CN_USINT where "C_MessageRouter = 0x02"
definition C_ConnectionManager :: CN_USINT where "C_ConnectionManager = 0x06"
definition S_CIP_MultiRequest :: CN_USINT where "S_CIP_MultiRequest = 0x0A"
definition S_CM_Unconnected_Send :: CN_USINT where "S_CM_Unconnected_Send = 0x52"

definition port_path_size :: "CN_USINT \<Rightarrow> CN_USINT \<Rightarrow> nat" where
  "port_path_size port link = 1"

definition make_port_path :: "memory \<Rightarrow> nat \<Rightarrow> CN_USINT \<Rightarrow> CN_USINT \<Rightarrow> memory" where
  "make_port_path m path port link = m(path := port, path + 1 := link)"

definition CIA_path_size :: "CN_USINT \<Rightarrow> CN_USINT \<Rightarrow> CN_USINT \<Rightarrow> nat" where
  "CIA_path_size cls instance attr = (if attr \<noteq> 0 then 3 else 2)"

definition make_CIA_path ::
  "memory \<Rightarrow> nat \<Rightarrow> CN_USINT \<Rightarrow> CN_USINT \<Rightarrow> CN_USINT \<Rightarrow> memory \<times> nat" where
  "make_CIA_path m path cls instance attr =
     (let m = m(path := 0x20, path + 1 := cls, path + 2 := 0x24, path + 3 := instance);
          path = path + 4
      in if attr \<noteq> 0 then (m(path := 0x30, path + 1 := attr), path + 2)
         else (m, path))"

definition MR_Request_size :: "nat \<Rightarrow> nat" where
  "MR_Request_size path_size = 2 * 1 + path_size * 2"

definition make_MR_Request ::
  "memory \<Rightarrow> nat \<Rightarrow> CN_USINT \<Rightarrow> CN_USINT \<Rightarrow> memory \<times> nat" where
  "make_MR_Request m buf service path_size =
     (let (m, buf) = pack_USINT m buf service in pack_USINT m buf path_size)"

definition raw_MR_Request_data :: "memory \<Rightarrow> nat \<Rightarrow> nat" where
  "raw_MR_Request_data m request = request + 2 + unat (m (request + 1)) * 2"

section \<open>Connection Manager: unconnected send\<close>

definition CM_Unconnected_Send_size :: "nat \<Rightarrow> nat" where
  "CM_Unconnected_Send_size message_size =
     MR_Request_size (CIA_path_size C_ConnectionManager 1 0)
     + 1 + 1 + 2 + message_size + message_size mod 2 + 4"

text \<open>
  \<^verbatim>\<open>make_CM_Unconnected_Send\<close> ignores the result of \<^verbatim>\<open>calc_tick_time\<close>; its
  locals \<^verbatim>\<open>tick_time\<close> and \<^verbatim>\<open>ticks\<close> start indeterminate, which the first
  argument stands for. The region of the nested request is left for the caller
  to fill; the function returns its address.
\<close>

definition make_CM_Unconnected_Send ::
  "CN_USINT \<times> CN_USINT \<Rightarrow> memory \<Rightarrow> nat \<Rightarrow> nat \<Rightarrow> memory \<times> nat" where
  "make_CM_Unconnected_Send locals m request message_size =
     (let (ok, tick_time, ticks) = calc_tick_time 245760 locals;
          (m, buf) = make_MR_Request m request S_CM_Unconnected_Send
                       (of_nat (CIA_path_size C_ConnectionManager 1 0));
          (m, buf) = make_CIA_path m buf C_ConnectionManager 1 0;
          (m, buf) = pack_USINT m buf tick_time;
          (m, buf) = pack_USINT m buf ticks;
          (m, buf) = pack_UINT m buf (of_nat message_size);
          nested_request = buf;
          buf = buf + message_size + message_size mod 2;
          (m, buf) = pack_USINT m buf (of_nat (port_path_size 1 0));
          (m, buf) = pack_USINT m buf 0;
          m = make_port_path m buf 1 0
      in (m, nested_request))"

text \<open>The \<open>n\<close> octets stored from address \<open>p\<close> on.\<close>

definition bytes_at :: "memory \<Rightarrow> nat \<Rightarrow> nat \<Rightarrow> CN_USINT list" where
  "bytes_at m p n = map (\<lambda>i. m (p + i)) [0..<n]"

section \<open>CIP MultiRequest\<close>

definition CIP_MultiRequest_size :: "nat \<Rightarrow> nat \<Rightarrow> nat" where
  "CIP_MultiRequest_size count requests_size =
     2 + CIA_path_size C_MessageRouter 1 0 * 2 + 2 + 2 * count + requests_size"

definition CIP_MultiResponse_size :: "nat \<Rightarrow> nat \<Rightarrow> nat" where
  "CIP_MultiResponse_size count responses_size = 4 + 2 + 2 * count + responses_size"

text \<open>The loop of \<^verbatim>\<open>prepare_CIP_MultiRequest\<close> that clears offset[1..count-1].\<close>

function prepare_offsets :: "memory \<Rightarrow> nat \<Rightarrow> nat \<Rightarrow> nat \<Rightarrow> memory \<times> nat" where
  "prepare_offsets m buf i count =
     (if i < count
      then (let (m, buf) = pack_UINT m buf 0 in prepare_offsets m buf (i + 1) count)
      else (m, buf))"
  by pat_completeness auto
termination
  by (relation "measure (\<lambda>(m, buf, i, count). count - i)") auto

declare prepare_offsets.simps [simp del]

definition prepare_CIP_MultiRequest :: "memory \<Rightarrow> nat \<Rightarrow> nat \<Rightarrow> memory \<times> bool" where
  "prepare_CIP_MultiRequest m request count =
     (let (m, buf) = make_MR_Request m request S_CIP_MultiRequest
                       (of_nat (CIA_path_size C_MessageRouter 1 0));
          (m, buf) = make_CIA_path m buf C_MessageRouter 1 0;
          (m, buf) = pack_UINT m buf (of_nat count);
          (m, buf) = pack_UINT m buf (of_nat ((count + 1) * 2));
          (m, buf) = prepare_offsets m buf 1 count
      in (m, True))"

text \<open>
  \<^verbatim>\<open>CIP_MultiRequest_item\<close> returns the address where the single request goes,
  or the null pointer (\<open>None\<close>). The locals \<^verbatim>\<open>count\<close>, \<^verbatim>\<open>offset\<close> and
  \<^verbatim>\<open>next_no\<close> are \<^verbatim>\<open>CN_UINT\<close>; the sum \<^verbatim>\<open>offset + single_request_size\<close> is
  cut to 16 bits when it is packed.
\<close>

definition CIP_MultiRequest_item ::
  "memory \<Rightarrow> nat \<Rightarrow> nat \<Rightarrow> nat \<Rightarrow> memory \<times> nat option" where
  "CIP_MultiRequest_item m request request_no single_request_size =
     (let countp = raw_MR_Request_data m request;
          (count, offsetp) = unpack_UINT m countp
      in if request_no \<ge> unat count then (m, None)
         else (let (offset, _) = unpack_UINT m (offsetp + 2 * request_no)
               in if offset = 0 then (m, None)
                  else (let item = countp + unat offset;
                            next_no = (of_nat (request_no + 1) :: CN_UINT)
                        in if next_no < count
                           then (fst (pack_UINT m (offsetp + 2 * unat next_no)
                                        (of_nat (unat offset + single_request_size))),
                                 Some item)
                           else (m, Some item))))"

text \<open>
  The caller's loop: items 0, 1, 2, ... are requested in ascending order,
  starting at number \<open>i\<close>, with the sizes of the list.
\<close>

fun deposit_items :: "memory \<Rightarrow> nat \<Rightarrow> nat \<Rightarrow> nat list \<Rightarrow> memory \<times> nat option list" where
  "deposit_items m request i [] = (m, [])"
| "deposit_items m request i (s # ss) =
     (let (m, p) = CIP_MultiRequest_item m request i s;
          (m, ps) = deposit_items m request (i + 1) ss
      in (m, p # ps))"

text \<open>
  What the offset table of a MultiRequest at \<open>request\<close> holds: a path of two
  words, the count \<open>N\<close>, and offset[i] = \<open>offs i\<close> for every \<open>i < N\<close>.
\<close>

definition multi_table :: "memory \<Rightarrow> nat \<Rightarrow> nat \<Rightarrow> (nat \<Rightarrow> CN_UINT) \<Rightarrow> bool" where
  "multi_table m request N offs \<longleftrightarrow>
     m (request + 1) = 2 \<and> fst (unpack_UINT m (request + 6)) = of_nat N \<and>
     (\<forall>i<N. fst (unpack_UINT m (request + 8 + 2 * i)) = offs i)"

section \<open>Symbolic tags\<close>

text \<open>
  Modelled from the spec: \<^verbatim>\<open>ParsedTag\<close> is declared in \<^verbatim>\<open>ether_ip.h\<close>, which
  is not part of the sources at hand. The code uses it as a linked list of nodes
  that hold either a name (\<^verbatim>\<open>te_name\<close>) or an array index (\<^verbatim>\<open>te_element\<close>);
  the specification gives the index the range 0..2^32-1, hence a 32-bit word.
  The null pointer is the empty list. A C string is the list of its characters
  before the terminating NUL.
\<close>

datatype TagElement = te_name string | te_element CN_UDINT

type_synonym ParsedTag = "TagElement list"

definition strcspn :: "string \<Rightarrow> string \<Rightarrow> nat" where
  "strcspn s reject = length (takeWhile (\<lambda>c. c \<notin> set reject) s)"

definition strchr :: "string \<Rightarrow> char \<Rightarrow> string option" where
  "strchr s c = (case dropWhile (\<lambda>x. x \<noteq> c) s of [] \<Rightarrow> None | x # r \<Rightarrow> Some (x # r))"

definition isspace :: "char \<Rightarrow> bool" where
  "isspace c \<longleftrightarrow> c \<in> {CHR '' '', CHR 0x09, CHR 0x0A, CHR 0x0B, CHR 0x0C, CHR 0x0D}"

definition isdigit :: "char \<Rightarrow> bool" where
  "isdigit c \<longleftrightarrow> (48::nat) \<le> of_char c \<and> (of_char c :: nat) \<le> 57"

text \<open>
  \<^verbatim>\<open>atol\<close>: optional white space, an optional sign, then decimal digits up to
  the first character that is not one. For a value outside \<^verbatim>\<open>long\<close> the C
  library answers as \<^verbatim>\<open>strtol\<close> does, with \<^verbatim>\<open>LONG_MAX\<close> or \<^verbatim>\<open>LONG_MIN\<close>;
  \<^verbatim>\<open>long\<close> has 64 bits. The assignment to the element field then keeps the
  low 32 bits.
\<close>

definition LONG_MAX :: int where
  "LONG_MAX = 2 ^ 63 - 1"

definition LONG_MIN :: int where
  "LONG_MIN = - (2 ^ 63)"

definition atol :: "string \<Rightarrow> int" where
  "atol s =
     (let s1 = dropWhile isspace s;
          neg = (s1 \<noteq> [] \<and> hd s1 = CHR ''-'');
          s2 = (if s1 \<noteq> [] \<and> (hd s1 = CHR ''-'' \<or> hd s1 = CHR ''+'') then tl s1 else s1);
          v = foldl (\<lambda>a d. 10 * a + (of_char d - 48)) 0 (takeWhile isdigit s2)
      in if neg then max LONG_MIN (- v) else min LONG_MAX v)"

text \<open>
  The loop of \<^verbatim>\<open>EIP_parse_tag\<close>. \<open>avail\<close> is the number of allocations
  (\<^verbatim>\<open>calloc\<close> of a node, \<^verbatim>\<open>malloc\<close> in \<^verbatim>\<open>EIP_strdup\<close>) that succeed before the
  heap is exhausted; \<open>tlist\<close> is the list \<^verbatim>\<open>tl\<close> built so far. The result \<open>[]\<close> is the
  null pointer: both \<^verbatim>\<open>return 0\<close> and \<^verbatim>\<open>return tl\<close> with nothing parsed.
\<close>

function EIP_parse_loop :: "nat \<Rightarrow> string \<Rightarrow> ParsedTag \<Rightarrow> ParsedTag" where
  "EIP_parse_loop avail tag tlist =
     (let len = strcspn tag ''.[''
      in if len \<le> 0 then tlist
         else if avail = 0 then []
         else if avail = 1 then []
         else (let tlist = tlist @ [te_name (take len tag)]
               in case drop len tag of
                    [] \<Rightarrow> tlist
                  | c # rest \<Rightarrow>
                      if c = CHR ''.'' then EIP_parse_loop (avail - 2) rest tlist
                      else if avail = 2 then []
                      else (let tlist = tlist @ [te_element (of_int (atol rest))]
                            in case strchr rest CHR '']'' of
                                 None \<Rightarrow> []
                               | Some t \<Rightarrow> EIP_parse_loop (avail - 3) (tl t) tlist)))"
  by pat_completeness auto
termination
proof (relation "measure (\<lambda>(avail, tag, tlist). length tag)")
  show "wf (measure (\<lambda>(avail, tag, tlist). length tag))" by simp
next
  fix avail :: nat and tag :: string and tlist tlist' :: ParsedTag and len c rest
  assume "drop len tag = c # rest"
  then have "length (c # rest) = length tag - len" by (metis length_drop)
  then show "((avail - 2, rest, tlist'), (avail, tag, tlist)) \<in> measure (\<lambda>(avail, tag, tlist). length tag)"
    by simp
next
  fix avail :: nat and tag :: string and tlist tlist' tlist'' :: ParsedTag and len c rest t
  assume d: "drop len tag = c # rest" and s: "strchr rest CHR '']'' = Some t"
  from d have "length (c # rest) = length tag - len" by (metis length_drop)
  moreover from s have "length t \<le> length rest"
    by (auto simp: strchr_def length_dropWhile_le split: list.splits
        intro: order_trans [OF _ length_dropWhile_le [of "\<lambda>x. x \<noteq> CHR '']''" rest]])
  ultimately show "((avail - 3, tl t, tlist''), (avail, tag, tlist)) \<in> measure (\<lambda>(avail, tag, tlist). length tag)"
    by simp
qed

declare EIP_parse_loop.simps [simp del]

definition EIP_parse_tag :: "nat \<Rightarrow> string \<Rightarrow> ParsedTag" where
  "EIP_parse_tag avail tag = EIP_parse_loop avail tag []"

text \<open>
  For the claims about malformed strings: a name as the loop reads it (not
  empty, without \<^verbatim>\<open>.\<close> and \<^verbatim>\<open>[\<close>), and the two ways in which the loop
  passes a name and goes on: the name and a dot, or the name and a closed
  bracket.
\<close>

definition plain_name :: "string \<Rightarrow> bool" where
  "plain_name n \<longleftrightarrow> n \<noteq> [] \<and> CHR ''.'' \<notin> set n \<and> CHR ''['' \<notin> set n"

datatype lead = name_dot string | name_index string string

fun lead_text :: "lead \<Rightarrow> string" where
  "lead_text (name_dot n) = n @ ''.''"
| "lead_text (name_index n x) = n @ ''['' @ x @ '']''"

fun lead_ok :: "lead \<Rightarrow> bool" where
  "lead_ok (name_dot n) = plain_name n"
| "lead_ok (name_index n x) = (plain_name n \<and> CHR '']'' \<notin> set x)"

text \<open>The loop of \<^verbatim>\<open>tag_path_size\<close>, which adds up octets.\<close>

fun tag_path_bytes :: "ParsedTag \<Rightarrow> nat \<Rightarrow> nat" where
  "tag_path_bytes [] bytes = bytes"
| "tag_path_bytes (te_name name # tag) bytes =
     (let slen = length name in tag_path_bytes tag (bytes + (2 + slen + slen mod 2)))"
| "tag_path_bytes (te_element element # tag) bytes =
     (if element \<le> 0xFF then tag_path_bytes tag (bytes + 2)
      else if element \<le> 0xFFFF then tag_path_bytes tag (bytes + 4)
      else tag_path_bytes tag (bytes + 6))"

definition tag_path_size :: "ParsedTag \<Rightarrow> nat" where
  "tag_path_size tag = tag_path_bytes tag 0 div 2"

definition memcpy :: "memory \<Rightarrow> nat \<Rightarrow> CN_USINT list \<Rightarrow> memory" where
  "memcpy m dst src = (\<lambda>a. if dst \<le> a \<and> a < dst + length src then src ! (a - dst) else m a)"

fun make_tag_path :: "memory \<Rightarrow> nat \<Rightarrow> ParsedTag \<Rightarrow> memory \<times> nat" where
  "make_tag_path m path [] = (m, path)"
| "make_tag_path m path (te_name name # tag) =
     (let slen = length name;
          m = m(path := 0x91);
          m = m(path + 1 := of_nat slen);
          m = memcpy m (path + 2) (map of_char name);
          m = (if slen mod 2 \<noteq> 0 then m(path + (2 + slen) := 0) else m)
      in make_tag_path m (path + (2 + slen + slen mod 2)) tag)"
| "make_tag_path m path (te_element element # tag) =
     (if element \<le> 0xFF
      then make_tag_path (m(path := 0x28, path + 1 := ucast element)) (path + 2) tag
      else if element \<le> 0xFFFF
      then make_tag_path
             (m(path := 0x29, path + 1 := 0x00,
                path + 2 := ucast (element AND 0x00FF),
                path + 3 := ucast (drop_bit 8 (element AND 0xFF00))))
             (path + 4) tag
      else make_tag_path
             (m(path := 0x2A, path + 1 := 0x00,
                path + 2 := ucast (element AND 0x000000FF),
                path + 3 := ucast (drop_bit 8 (element AND 0x0000FF00)),
                path + 4 := ucast (drop_bit 16 (element AND 0x00FF0000)),
                path + 5 := ucast (drop_bit 24 (element AND 0xFF000000))))
             (path + 6) tag)"

text \<open>
  The wire path in the words of the specification: each segment on its own,
  the path their concatenation.
\<close>

definition wire_segment :: "TagElement \<Rightarrow> CN_USINT list" where
  "wire_segment e =
     (case e of
        te_name name \<Rightarrow>
          [0x91, of_nat (length name)] @ map of_char name
            @ (if odd (length name) then [0] else [])
      | te_element index \<Rightarrow>
          if index \<le> 0xFF then [0x28, ucast index]
          else if index \<le> 0xFFFF then [0x29, 0x00, ucast index, ucast (drop_bit 8 index)]
          else [0x2A, 0x00, ucast index, ucast (drop_bit 8 index),
                ucast (drop_bit 16 index), ucast (drop_bit 24 index)])"

definition wire_path :: "ParsedTag \<Rightarrow> CN_USINT list" where
  "wire_path tag = concat (map wire_segment tag)"

text \<open>Non-empty names joined by single dots.\<close>

fun dotted :: "string list \<Rightarrow> string" where
  "dotted [] = []"
| "dotted [n] = n"
| "dotted (n # ns) = n @ CHR ''.'' # dotted ns"

text \<open>The store after one pass through the loop body of \<^verbatim>\<open>make_tag_path\<close>.\<close>

definition write_segment :: "memory \<Rightarrow> nat \<Rightarrow> TagElement \<Rightarrow> memory" where
  "write_segment m path e = fst (make_tag_path m path [e])"

section \<open>Driver: tags, scan lists, PLCs\<close>

text \<open>
  Modelled from the spec: \<^verbatim>\<open>TagInfo\<close>, \<^verbatim>\<open>ScanList\<close>, \<^verbatim>\<open>PLC\<close> and
  \<^verbatim>\<open>EIPConnection\<close> are declared in \<^verbatim>\<open>drvEtherIP.h\<close> and \<^verbatim>\<open>ether_ip.h\<close>,
  which are not part of the sources at hand; the records carry the fields that
  \<^verbatim>\<open>drvEtherIP.c\<close> reads and writes. The intrusive doubly linked lists are
  lists. \<open>data_lock\<close> stands for the state of the tag's semaphore as the
  scan task meets it: \<open>True\<close> when \<^verbatim>\<open>semTake(data_lock, EIP_SEM_TIMEOUT)\<close>
  returns \<^verbatim>\<open>OK\<close>, \<open>False\<close> when another task holds it beyond the timeout.
\<close>

record TagInfo =
  string_tag :: string
  tag :: ParsedTag
  elements :: nat
  cip_r_request_size :: nat
  cip_r_response_size :: nat
  cip_w_request_size :: nat
  cip_w_response_size :: nat
  data_lock :: bool
  data_size :: nat
  valid_data_size :: nat
  do_write :: bool
  is_writing :: bool
  data :: "CN_USINT list"

record ScanList =
  period :: nat
  enabled :: bool
  taginfos :: "TagInfo list"

text \<open>
  Of a connection the driver tests and clears \<^verbatim>\<open>sock\<close> and reads
  \<^verbatim>\<open>transfer_buffer_limit\<close>; \<open>net\<close> stands for everything else: session,
  buffer, and the state of the peer.
\<close>

record 'n EIPConnection =
  sock :: nat
  transfer_buffer_limit :: nat
  net :: 'n

record 'n PLC =
  name :: string
  scanlists :: "ScanList list"
  connection :: "'n EIPConnection"

text \<open>
  A tag as \<^verbatim>\<open>new_TagInfo\<close> leaves it: \<^verbatim>\<open>calloc\<close> clears every field, then the
  name, the parsed tag and the element count are set and the lock is created.
\<close>

definition fresh_TagInfo :: "string \<Rightarrow> ParsedTag \<Rightarrow> nat \<Rightarrow> TagInfo" where
  "fresh_TagInfo s t n =
     \<lparr>string_tag = s, tag = t, elements = n,
      cip_r_request_size = 0, cip_r_response_size = 0,
      cip_w_request_size = 0, cip_w_response_size = 0,
      data_lock = True, data_size = 0, valid_data_size = 0,
      do_write = False, is_writing = False, data = []\<rparr>"

subsection \<open>Completing the tag sizes after a connect\<close>

text \<open>
  \<^verbatim>\<open>EIP_read_tag\<close> talks to the controller. It is a parameter here: given the
  connection, the parsed tag and the element count it yields the connection
  afterwards, whether it returned data (not null), and what the two size
  fields it is handed hold afterwards.
\<close>

type_synonym 'n read_tag =
  "'n EIPConnection \<Rightarrow> ParsedTag \<Rightarrow> nat \<Rightarrow> 'n EIPConnection \<times> bool \<times> nat \<times> nat"

text \<open>The body of the inner loop of \<^verbatim>\<open>complete_PLC_ScanList_TagInfos\<close>.\<close>

definition complete_TagInfo ::
  "'n read_tag \<Rightarrow> 'n EIPConnection \<Rightarrow> bool \<Rightarrow> TagInfo
     \<Rightarrow> 'n EIPConnection \<times> bool \<times> TagInfo" where
  "complete_TagInfo EIP_read_tag c any_ok info =
     (if cip_r_request_size info \<noteq> 0 \<or> cip_r_response_size info \<noteq> 0
      then (c, any_ok, info)
      else (let (c, data, request_size, response_size) = EIP_read_tag c (tag info) (elements info);
                info = info\<lparr>cip_r_request_size := request_size,
                             cip_r_response_size := response_size\<rparr>
            in if data
               then (if cip_r_response_size info \<le> 4
                     then (c, True, info\<lparr>cip_w_request_size := 0, cip_w_response_size := 0\<rparr>)
                     else (let type_and_data_len = cip_r_response_size info - 4
                           in (c, True,
                               info\<lparr>cip_w_request_size := cip_r_request_size info + type_and_data_len,
                                     cip_w_response_size := 4\<rparr>)))
               else (c, any_ok,
                     info\<lparr>cip_r_request_size := 0, cip_r_response_size := 0,
                           cip_w_request_size := 0, cip_w_response_size := 0\<rparr>)))"

fun complete_TagInfos ::
  "'n read_tag \<Rightarrow> 'n EIPConnection \<Rightarrow> bool \<Rightarrow> TagInfo list
     \<Rightarrow> 'n EIPConnection \<times> bool \<times> TagInfo list" where
  "complete_TagInfos EIP_read_tag c any_ok [] = (c, any_ok, [])"
| "complete_TagInfos EIP_read_tag c any_ok (info # infos) =
     (let (c, any_ok, info) = complete_TagInfo EIP_read_tag c any_ok info;
          (c, any_ok, infos) = complete_TagInfos EIP_read_tag c any_ok infos
      in (c, any_ok, info # infos))"

fun complete_ScanLists ::
  "'n read_tag \<Rightarrow> 'n EIPConnection \<Rightarrow> bool \<Rightarrow> ScanList list
     \<Rightarrow> 'n EIPConnection \<times> bool \<times> ScanList list" where
  "complete_ScanLists EIP_read_tag c any_ok [] = (c, any_ok, [])"
| "complete_ScanLists EIP_read_tag c any_ok (slist # slists) =
     (let (c, any_ok, infos) = complete_TagInfos EIP_read_tag c any_ok (taginfos slist);
          (c, any_ok, slists) = complete_ScanLists EIP_read_tag c any_ok slists
      in (c, any_ok, slist\<lparr>taginfos := infos\<rparr> # slists))"

definition complete_PLC_ScanList_TagInfos :: "'n read_tag \<Rightarrow> 'n PLC \<Rightarrow> 'n PLC \<times> bool" where
  "complete_PLC_ScanList_TagInfos EIP_read_tag plc =
     (let (c, any_ok, slists) =
            complete_ScanLists EIP_read_tag (connection plc) False (scanlists plc)
      in (plc\<lparr>scanlists := slists, connection := c\<rparr>, any_ok))"

subsection \<open>Disconnecting\<close>

definition invalidate_TagInfo :: "TagInfo \<Rightarrow> TagInfo" where
  "invalidate_TagInfo info = (if data_lock info then info\<lparr>valid_data_size := 0\<rparr> else info)"

definition invalidate_PLC_tags :: "'n PLC \<Rightarrow> 'n PLC" where
  "invalidate_PLC_tags plc =
     plc\<lparr>scanlists :=
           map (\<lambda>slist. slist\<lparr>taginfos := map invalidate_TagInfo (taginfos slist)\<rparr>)
             (scanlists plc)\<rparr>"

text \<open>
  \<^verbatim>\<open>EIP_shutdown\<close>: \<^verbatim>\<open>EIP_unregister_session\<close> fills and sends the buffer,
  which the parameter \<open>unregister\<close> stands for, and never assigns \<^verbatim>\<open>sock\<close>;
  \<^verbatim>\<open>EIP_disconnect\<close> closes the socket and clears \<^verbatim>\<open>sock\<close>.
\<close>

definition EIP_disconnect :: "'n EIPConnection \<Rightarrow> 'n EIPConnection" where
  "EIP_disconnect c = c\<lparr>sock := 0\<rparr>"

definition EIP_shutdown :: "('n \<Rightarrow> 'n) \<Rightarrow> 'n EIPConnection \<Rightarrow> 'n EIPConnection" where
  "EIP_shutdown unregister c = EIP_disconnect (c\<lparr>net := unregister (net c)\<rparr>)"

definition disconnect_PLC :: "('n \<Rightarrow> 'n) \<Rightarrow> 'n PLC \<Rightarrow> 'n PLC" where
  "disconnect_PLC unregister plc =
     (if sock (connection plc) \<noteq> 0
      then invalidate_PLC_tags (plc\<lparr>connection := EIP_shutdown unregister (connection plc)\<rparr>)
      else plc)"

text \<open>All tags of a PLC, list by list.\<close>

definition PLC_tags :: "'n PLC \<Rightarrow> TagInfo list" where
  "PLC_tags plc = concat (map taginfos (scanlists plc))"

subsection \<open>How many tags fit one transfer\<close>

text \<open>
  The four size variables that \<^verbatim>\<open>determine_MultiRequest_count\<close> fills through
  pointers. The two totals are reset on entry; the two MultiRequest sizes keep
  what the caller's variables held if no tag is examined.
\<close>

record transfer_sizes =
  requests_size :: nat
  responses_size :: nat
  multi_request_size :: nat
  multi_response_size :: nat

text \<open>
  The loop of \<^verbatim>\<open>determine_MultiRequest_count\<close> from \<open>info\<close> to the end of
  the list. The result holds the count returned, the sizes, and the tags with
  \<^verbatim>\<open>is_writing\<close> as the loop leaves it.
\<close>

fun determine_loop ::
  "nat \<Rightarrow> TagInfo list \<Rightarrow> nat \<Rightarrow> transfer_sizes \<Rightarrow> nat \<times> transfer_sizes \<times> TagInfo list" where
  "determine_loop limit [] count sz = (count, sz, [])"
| "determine_loop limit (info # infos) count sz =
     (if cip_r_request_size info \<le> 0
      then (let (count, sz, infos) = determine_loop limit infos count sz
            in (count, sz, info # infos))
      else if \<not> data_lock info then (0, sz, info # infos)
      else (let info = (if do_write info then info\<lparr>is_writing := True\<rparr> else info);
                try_req = (if do_write info
                           then requests_size sz + cip_w_request_size info
                           else requests_size sz + cip_r_request_size info);
                try_resp = (if do_write info
                            then responses_size sz + cip_w_response_size info
                            else responses_size sz + cip_r_response_size info);
                sz = sz\<lparr>multi_request_size := CIP_MultiRequest_size (count + 1) try_req,
                         multi_response_size := CIP_MultiResponse_size (count + 1) try_resp\<rparr>
            in if multi_request_size sz > limit \<or> multi_response_size sz > limit
               then (count,
                     sz\<lparr>multi_request_size := CIP_MultiRequest_size count (requests_size sz),
                        multi_response_size := CIP_MultiResponse_size count (responses_size sz)\<rparr>,
                     info # infos)
               else (let (count, sz, infos) =
                           determine_loop limit infos (count + 1)
                             (sz\<lparr>requests_size := try_req, responses_size := try_resp\<rparr>)
                     in (count, sz, info # infos))))"

definition determine_MultiRequest_count ::
  "nat \<Rightarrow> TagInfo list \<Rightarrow> transfer_sizes \<Rightarrow> nat \<times> transfer_sizes \<times> TagInfo list" where
  "determine_MultiRequest_count limit infos sz =
     determine_loop limit infos 0 (sz\<lparr>requests_size := 0, responses_size := 0\<rparr>)"

text \<open>
  The claim's vocabulary: the tags the loop does not skip, what a tag adds to
  the requests and to the responses, whether the first \<open>k\<close> tags fit the
  limit, and the largest such \<open>k\<close> (0 if there is none).
\<close>

definition eligible :: "TagInfo list \<Rightarrow> TagInfo list" where
  "eligible infos = filter (\<lambda>info. cip_r_request_size info \<noteq> 0) infos"

definition tag_request_size :: "TagInfo \<Rightarrow> nat" where
  "tag_request_size info =
     (if do_write info then cip_w_request_size info else cip_r_request_size info)"

definition tag_response_size :: "TagInfo \<Rightarrow> nat" where
  "tag_response_size info =
     (if do_write info then cip_w_response_size info else cip_r_response_size info)"

definition packed_fits :: "nat \<Rightarrow> TagInfo list \<Rightarrow> nat \<Rightarrow> bool" where
  "packed_fits limit ts k \<longleftrightarrow>
     CIP_MultiRequest_size k (sum_list (map tag_request_size (take k ts))) \<le> limit \<and>
     CIP_MultiResponse_size k (sum_list (map tag_response_size (take k ts))) \<le> limit"

definition largest_fit :: "nat \<Rightarrow> TagInfo list \<Rightarrow> nat" where
  "largest_fit limit ts = Max (set (0 # filter (packed_fits limit ts) [1..<Suc (length ts)]))"

text \<open>
  The loop on the tags it does not skip, stripped to the count: \<open>R\<close> and
  \<open>S\<close> are the totals so far.
\<close>

fun greedy_count :: "nat \<Rightarrow> TagInfo list \<Rightarrow> nat \<Rightarrow> nat \<Rightarrow> nat \<Rightarrow> nat" where
  "greedy_count limit [] c R S = c"
| "greedy_count limit (t # ts) c R S =
     (if \<not> data_lock t then 0
      else if CIP_MultiRequest_size (c + 1) (R + tag_request_size t) > limit
            \<or> CIP_MultiResponse_size (c + 1) (S + tag_response_size t) > limit
      then c
      else greedy_count limit ts (c + 1) (R + tag_request_size t) (S + tag_response_size t))"

text \<open>How many leading tags fit, one after the other, locks left aside.\<close>

fun fit_prefix :: "nat \<Rightarrow> TagInfo list \<Rightarrow> nat \<Rightarrow> nat \<Rightarrow> nat \<Rightarrow> nat" where
  "fit_prefix limit [] c R S = 0"
| "fit_prefix limit (t # ts) c R S =
     (if CIP_MultiRequest_size (c + 1) (R + tag_request_size t) > limit
        \<or> CIP_MultiResponse_size (c + 1) (S + tag_response_size t) > limit
      then 0
      else Suc (fit_prefix limit ts (c + 1) (R + tag_request_size t) (S + tag_response_size t)))"

subsection \<open>Requests and responses of one tag in a transfer\<close>








section \<open>Growing a buffer\<close>

text \<open>
  The heap: the byte store and the table of allocated blocks (address to
  size). The null pointer is address 0. \<^verbatim>\<open>malloc\<close> is a parameter: the
  address it returns (0 when it fails).

  \<^verbatim>\<open>old_size\<close> is an \<^verbatim>\<open>int\<close> in the source. The size is narrowed to it (the
  low 32 bits, read as two's complement) and widened again to \<^verbatim>\<open>size_t\<close>,
  which has 64 bits, as the count of \<^verbatim>\<open>memcpy\<close>. A count larger than the
  old size makes \<^verbatim>\<open>memcpy\<close> read past the old buffer: the behaviour is
  undefined, and the result is \<open>None\<close>.
\<close>

record heap =
  store :: memory
  blocks :: "nat \<rightharpoonup> nat"

definition int_of_size_t :: "nat \<Rightarrow> int" where
  "int_of_size_t n = sint (of_nat n :: 32 word)"

definition size_t_of_int :: "int \<Rightarrow> nat" where
  "size_t_of_int i = unat (of_int i :: 64 word)"

definition EIP_reserve_buffer ::
  "nat \<Rightarrow> heap \<Rightarrow> nat \<Rightarrow> nat \<Rightarrow> nat \<Rightarrow> (heap \<times> nat \<times> nat \<times> bool) option" where
  "EIP_reserve_buffer malloc h buffer size' requested =
     (if size' \<ge> requested then Some (h, buffer, size', True)
      else (let old_buffer = buffer;
                old_size = int_of_size_t size';
                buffer = malloc
            in if buffer = 0 then Some (h, old_buffer, size', False)
               else (let h = h\<lparr>blocks := (blocks h)(buffer \<mapsto> requested)\<rparr>;
                         new_size = requested
                     in if old_buffer \<noteq> 0
                        then (let n = size_t_of_int old_size
                              in if size' < n then None
                                 else Some (h\<lparr>store := memcpy (store h) buffer
                                                          (bytes_at (store h) old_buffer n),
                                              blocks := (blocks h)(old_buffer := None)\<rparr>,
                                            buffer, new_size, True))
                        else Some (h, buffer, new_size, True))))"

section \<open>Properties\<close>

subsection \<open>Little-endian fields\<close>

lemma mask_FF: "(0xFF :: CN_UINT) = mask 8"
  by (simp add: mask_eq_exp_minus_1)

lemma mask_FF00: "(0xFF00 :: CN_UINT) = push_bit 8 (mask 8)"
  by (simp add: mask_eq_exp_minus_1)

lemma UINT_bytes_roundtrip:
  fixes v :: CN_UINT
  shows "ucast (ucast (v AND 0x00FF) :: CN_USINT) OR
         push_bit 8 (ucast (ucast (drop_bit 8 (v AND 0xFF00)) :: CN_USINT)) = v"
  unfolding mask_FF mask_FF00
  by (rule bit_word_eqI) (auto simp: bit_simps)

lemma unpack_UINT_bytes:
  "m p = ucast (v AND 0x00FF) \<Longrightarrow> m (p + 1) = ucast (drop_bit 8 (v AND 0xFF00)) \<Longrightarrow>
   unpack_UINT m p = (v, p + 2)"
  using UINT_bytes_roundtrip [of v] by (simp add: unpack_UINT_def)

lemma bytes_at_4: "bytes_at m p 4 = [m p, m (p + 1), m (p + 2), m (p + 3)]"
  by (simp add: bytes_at_def upt_rec eval_nat_numeral)

lemma bytes_at_8:
  "bytes_at m p 8 = [m p, m (p + 1), m (p + 2), m (p + 3), m (p + 4), m (p + 5), m (p + 6), m (p + 7)]"
  by (simp add: bytes_at_def upt_rec eval_nat_numeral)

subsection \<open>Tick time\<close>

lemma calc_tick_loop_shift:
  "calc_tick_loop millisec tick_time = (m', t') \<Longrightarrow>
     \<exists>k. m' = drop_bit k millisec \<and> t' = tick_time + of_nat k \<and> m' \<le> 255 \<and>
         (\<forall>s<k. 255 < drop_bit s millisec)"
proof (induction millisec tick_time arbitrary: m' t' rule: calc_tick_loop.induct)
  case (1 millisec tick_time)
  show ?case
  proof (cases "millisec > 0xFF")
    case False
    with "1.prems" have "m' = millisec" "t' = tick_time"
      by (simp_all add: calc_tick_loop.simps [of millisec])
    with False show ?thesis by (intro exI [of _ 0]) simp
  next
    case True
    with "1.prems" have "calc_tick_loop (drop_bit 1 millisec) (tick_time + 1) = (m', t')"
      by (simp add: calc_tick_loop.simps [of millisec])
    from "1.IH" [OF True this] obtain k where
      k: "m' = drop_bit k (drop_bit 1 millisec)" "t' = tick_time + 1 + of_nat k"
         "m' \<le> 255" "\<forall>s<k. 255 < drop_bit s (drop_bit 1 millisec)"
      by blast
    have "\<forall>s<Suc k. 255 < drop_bit s millisec"
    proof (intro allI impI)
      fix s assume s: "s < Suc k"
      show "255 < drop_bit s millisec"
      proof (cases s)
        case 0
        with True show ?thesis by simp
      next
        case (Suc r)
        with s k(4) have "255 < drop_bit r (drop_bit 1 millisec)" by simp
        with Suc show ?thesis by simp
      qed
    qed
    with k(1-3) show ?thesis
      by (intro exI [of _ "Suc k"]) simp
  qed
qed

lemma calc_tick_shift_bound:
  fixes millisec :: nat
  assumes "millisec \<le> 8355840" "\<forall>s<k. 255 < drop_bit s millisec"
  shows "k \<le> 15"
proof (rule ccontr)
  assume "\<not> k \<le> 15"
  then have "15 < k" by simp
  with assms(2) have "255 < drop_bit 15 millisec" by blast
  then have "255 < millisec div 32768" by (simp add: drop_bit_eq_div)
  with assms(1) show False by simp
qed

lemma calc_tick_time_245760: "calc_tick_time 245760 locals = (True, 10, 240)"
  by (simp add: calc_tick_time_def calc_tick_loop.simps)

subsection \<open>Unconnected send\<close>

lemmas make_CM_unfold = make_CM_Unconnected_Send_def make_MR_Request_def
  pack_USINT_def pack_UINT_def make_CIA_path_def make_port_path_def
  CIA_path_size_def port_path_size_def C_ConnectionManager_def S_CM_Unconnected_Send_def
  Let_def

lemma make_CM_ticks:
  "fst (make_CM_Unconnected_Send locals m request message_size) (request + 6) = 10"
  "fst (make_CM_Unconnected_Send locals m request message_size) (request + 7) = 240"
  by (simp_all add: make_CM_unfold calc_tick_time_245760)

lemma make_CM_head:
  "bytes_at (fst (make_CM_Unconnected_Send locals m request message_size)) request 8
     = [0x52, 2, 0x20, 0x06, 0x24, 1, 10, 240]"
  unfolding bytes_at_8
  by (simp add: make_CM_unfold calc_tick_time_245760)

lemma make_CM_message_size:
  "unpack_UINT (fst (make_CM_Unconnected_Send locals m request message_size)) (request + 8)
     = (of_nat message_size, request + 10)"
proof -
  have "unpack_UINT (fst (make_CM_Unconnected_Send locals m request message_size)) (request + 8)
     = (of_nat message_size, request + 8 + 2)"
    by (rule unpack_UINT_bytes) (simp_all add: make_CM_unfold calc_tick_time_245760)
  then show ?thesis by simp
qed

lemma make_CM_tail:
  "bytes_at (fst (make_CM_Unconnected_Send locals m request message_size))
      (request + 10 + (message_size + message_size mod 2)) 4
     = [1, 0, 1, 0]"
  unfolding bytes_at_4
  by (simp add: make_CM_unfold calc_tick_time_245760)

lemma make_CM_nested_untouched:
  "request + 10 \<le> a \<Longrightarrow> a < request + 10 + (message_size + message_size mod 2) \<Longrightarrow>
   fst (make_CM_Unconnected_Send locals m request message_size) a = m a"
  by (simp add: make_CM_unfold calc_tick_time_245760)

lemma make_CM_outside:
  "a < request \<or> request + CM_Unconnected_Send_size message_size \<le> a \<Longrightarrow>
   fst (make_CM_Unconnected_Send locals m request message_size) a = m a"
  by (auto simp add: make_CM_unfold calc_tick_time_245760 CM_Unconnected_Send_size_def
      MR_Request_size_def)

lemma make_CM_nested:
  "snd (make_CM_Unconnected_Send locals m request message_size) = request + 10"
  by (simp add: make_CM_unfold calc_tick_time_245760)

lemma CM_Unconnected_Send_size_eq:
  "CM_Unconnected_Send_size message_size = 10 + (message_size + message_size mod 2) + 4"
  by (simp add: CM_Unconnected_Send_size_def MR_Request_size_def CIA_path_size_def)

text \<open>
  Claim C8. Whenever \<^verbatim>\<open>calc_tick_time\<close> succeeds on a millisecond budget, the
  tick count it stores is the budget shifted right by the stored tick time, that
  shifted value is at most 255 (so the octet holds it without loss), and no
  smaller shift brings the budget down to 255; the two octets that
  \<^verbatim>\<open>make_CM_Unconnected_Send\<close> places after the connection manager path are
  the pair computed for the budget of 245760 ms.
\<close>

theorem calc_tick_time_ticks:
  assumes "calc_tick_time millisec out = (True, tick_time, ticks)"
  shows "unat ticks = drop_bit (unat tick_time) millisec
       \<and> drop_bit (unat tick_time) millisec \<le> 255
       \<and> (\<forall>s < unat tick_time. 255 < drop_bit s millisec)
       \<and> calc_tick_time 245760 locals
           = (True, fst (make_CM_Unconnected_Send locals m request message_size) (request + 6),
                    fst (make_CM_Unconnected_Send locals m request message_size) (request + 7))"
proof -
  from assms have le: "millisec \<le> 8355840"
    by (auto simp: calc_tick_time_def split: if_splits)
  obtain m' t' where loop: "calc_tick_loop millisec 0 = (m', t')"
    by (cases "calc_tick_loop millisec 0")
  with assms le have res: "tick_time = t'" "ticks = of_nat m'"
    by (simp_all add: calc_tick_time_def)
  from calc_tick_loop_shift [OF loop] obtain k where
    k: "m' = drop_bit k millisec" "t' = of_nat k" "m' \<le> 255"
       "\<forall>s<k. 255 < drop_bit s millisec"
    by auto
  from calc_tick_shift_bound [OF le k(4)] have "k \<le> 15" .
  then have uk: "unat (of_nat k :: CN_USINT) = k"
    by (simp add: unat_of_nat)
  from k(3) have um: "unat (of_nat m' :: CN_USINT) = m'"
    by (simp add: unat_of_nat)
  have "calc_tick_time 245760 locals
           = (True, fst (make_CM_Unconnected_Send locals m request message_size) (request + 6),
                    fst (make_CM_Unconnected_Send locals m request message_size) (request + 7))"
    by (simp add: make_CM_ticks calc_tick_time_245760)
  with res k uk um show ?thesis by simp
qed

text \<open>The budget of 245760 ms: tick time 10 (units of 1024 ms) and 240 ticks.\<close>

theorem calc_tick_time_ticks_witness:
  "calc_tick_time 245760 (0, 0) = (True, 10, 240)
   \<and> unat (240 :: CN_USINT) = drop_bit (unat (10 :: CN_USINT)) (245760 :: nat)
   \<and> drop_bit (unat (10 :: CN_USINT)) (245760 :: nat) \<le> 255
   \<and> 255 < drop_bit 9 (245760 :: nat)
   \<and> fst (make_CM_Unconnected_Send (0, 0) (\<lambda>a. 0) 0 12) 6 = 10
   \<and> fst (make_CM_Unconnected_Send (0, 0) (\<lambda>a. 0) 0 12) 7 = 240"
proof -
  have h: "calc_tick_time 245760 (0, 0) = (True, 10, 240)"
    by (simp add: calc_tick_time_def calc_tick_loop.simps)
  from calc_tick_time_ticks [OF h, of "(0, 0)" "\<lambda>a. 0" 0 12] h
  show ?thesis by simp
qed

text \<open>
  Claim C7, as stated, fails. For an inner message of 12 octets placed in a
  request at address 0 of a store filled with 0xFF, the inner message occupies
  addresses 10 to 21; the six octets that follow are 01 00 01 00 and two
  octets the builder never touches, not 01 00 20 02 24 01, and the reported
  size of 26 leaves room for four trailing octets only.
\<close>

theorem make_CM_Unconnected_Send_route_counterexample:
  "bytes_at (fst (make_CM_Unconnected_Send (0, 0) (\<lambda>a. 0xFF) 0 12)) 22 6
     = [0x01, 0x00, 0x01, 0x00, 0xFF, 0xFF]
   \<and> bytes_at (fst (make_CM_Unconnected_Send (0, 0) (\<lambda>a. 0xFF) 0 12)) 22 6
     \<noteq> [0x01, 0x00, 0x20, 0x02, 0x24, 0x01]
   \<and> bytes_at (fst (make_CM_Unconnected_Send (0, 0) (\<lambda>a. 0xFF) 0 12)) 20 6
     \<noteq> [0x01, 0x00, 0x20, 0x02, 0x24, 0x01]
   \<and> CM_Unconnected_Send_size 12 = 26"
  by (simp add: bytes_at_def upt_rec make_CM_unfold calc_tick_time_245760
      CM_Unconnected_Send_size_eq)

text \<open>
  Claim C7, amended. \<^verbatim>\<open>make_CM_Unconnected_Send\<close> writes the service code
  0x52, a path of two words addressing class 0x06 instance 1, the priority and
  tick-time octet, the tick count, and the inner message size as a 16-bit
  little-endian field; it returns the address right after these ten octets
  and leaves the inner message region, padded to even length, as it was; behind
  that region it writes four octets: the port path size in words (1), a
  reserved zero, port 1 and link 0. The end of these four octets is
  \<^verbatim>\<open>CM_Unconnected_Send_size\<close> octets after the start of the request, and
  nothing outside the request is written.
\<close>

theorem make_CM_Unconnected_Send_layout:
  "(let r = make_CM_Unconnected_Send locals m request message_size;
        padded = message_size + message_size mod 2
    in snd r = request + 10
     \<and> bytes_at (fst r) request 8
          = [S_CM_Unconnected_Send, 2, 0x20, C_ConnectionManager, 0x24, 1, 10, 240]
     \<and> unpack_UINT (fst r) (request + 8) = (of_nat message_size, request + 10)
     \<and> even padded
     \<and> (\<forall>a. request + 10 \<le> a \<and> a < request + 10 + padded \<longrightarrow> fst r a = m a)
     \<and> bytes_at (fst r) (request + 10 + padded) 4 = [1, 0, 1, 0]
     \<and> request + 10 + padded + 4 = request + CM_Unconnected_Send_size message_size
     \<and> (\<forall>a. a < request \<or> request + CM_Unconnected_Send_size message_size \<le> a
            \<longrightarrow> fst r a = m a))"
proof -
  have "even (message_size + message_size mod 2)"
    by presburger
  then show ?thesis
    unfolding Let_def
    by (intro conjI allI impI make_CM_nested make_CM_message_size make_CM_tail
        make_CM_nested_untouched make_CM_outside)
       (simp_all add: make_CM_head S_CM_Unconnected_Send_def C_ConnectionManager_def
         CM_Unconnected_Send_size_eq)
qed

text \<open>An odd inner size of 11 octets, the request at address 4.\<close>

theorem make_CM_Unconnected_Send_layout_witness:
  "snd (make_CM_Unconnected_Send (0, 0) (\<lambda>a. 0xFF) 4 11) = 14
   \<and> fst (make_CM_Unconnected_Send (0, 0) (\<lambda>a. 0xFF) 4 11) 14 = 0xFF
   \<and> fst (make_CM_Unconnected_Send (0, 0) (\<lambda>a. 0xFF) 4 11) 25 = 0xFF
   \<and> bytes_at (fst (make_CM_Unconnected_Send (0, 0) (\<lambda>a. 0xFF) 4 11)) 26 4 = [1, 0, 1, 0]
   \<and> CM_Unconnected_Send_size 11 = 26
   \<and> fst (make_CM_Unconnected_Send (0, 0) (\<lambda>a. 0xFF) 4 11) 3 = 0xFF
   \<and> fst (make_CM_Unconnected_Send (0, 0) (\<lambda>a. 0xFF) 4 11) 30 = 0xFF"
proof -
  let ?r = "make_CM_Unconnected_Send (0, 0) (\<lambda>a. 0xFF) 4 11"
  note t = make_CM_Unconnected_Send_layout [of "(0, 0)" "\<lambda>a. 0xFF" 4 11, unfolded Let_def]
  have inner: "(14::nat) \<le> 14 \<and> (14::nat) < 4 + 10 + (11 + 11 mod 2)"
              "(14::nat) \<le> 25 \<and> (25::nat) < 4 + 10 + (11 + 11 mod 2)"
    by simp_all
  have sz: "CM_Unconnected_Send_size 11 = 26"
    using t by simp
  have outer: "(3::nat) < 4 \<or> 4 + CM_Unconnected_Send_size 11 \<le> 3"
              "(30::nat) < 4 \<or> 4 + CM_Unconnected_Send_size 11 \<le> 30"
    by (simp_all add: sz)
  from t have n: "snd ?r = 14" by simp
  from t inner have i: "fst ?r 14 = 0xFF" "fst ?r 25 = 0xFF" by simp_all
  from t have tl: "bytes_at (fst ?r) 26 4 = [1, 0, 1, 0]" by simp
  from t outer have o: "fst ?r 3 = 0xFF" "fst ?r 30 = 0xFF" by blast+
  from n i tl sz o show ?thesis by simp
qed

subsection \<open>MultiRequest offset table\<close>

lemma pack_UINT_other:
  "a \<noteq> p \<Longrightarrow> a \<noteq> p + 1 \<Longrightarrow> fst (pack_UINT m p v) a = m a"
  by (simp add: pack_UINT_def)

lemma pack_UINT_snd: "snd (pack_UINT m p v) = p + 2"
  by (simp add: pack_UINT_def)

lemma unpack_pack_UINT_same:
  "fst (unpack_UINT (fst (pack_UINT m p v)) p) = v"
  using UINT_bytes_roundtrip [of v] by (simp add: unpack_UINT_def pack_UINT_def)

lemma unpack_pack_UINT_other:
  "q + 2 \<le> p \<or> p + 2 \<le> q \<Longrightarrow>
   fst (unpack_UINT (fst (pack_UINT m p v)) q) = fst (unpack_UINT m q)"
  by (auto simp add: unpack_UINT_def pack_UINT_def)

lemma unpack_UINT_cong:
  "m' q = m q \<Longrightarrow> m' (q + 1) = m q1 \<Longrightarrow> q1 = q + 1 \<Longrightarrow> fst (unpack_UINT m' q) = fst (unpack_UINT m q)"
  by (simp add: unpack_UINT_def)

lemma unpack_UINT_snd: "snd (unpack_UINT m q) = q + 2"
  by (simp add: unpack_UINT_def)

lemma prepare_offsets_effect:
  "i \<le> count \<Longrightarrow> 
   snd (prepare_offsets m buf i count) = buf + 2 * (count - i) \<and>
   (\<forall>a. fst (prepare_offsets m buf i count) a =
        (if buf \<le> a \<and> a < buf + 2 * (count - i) then 0 else m a))"
proof (induction m buf i count rule: prepare_offsets.induct)
  case (1 m buf i count)
  show ?case
  proof (cases "i < count")
    case False
    with "1.prems" show ?thesis by (auto simp: prepare_offsets.simps [of m buf])
  next
    case True
    obtain m' buf' where p: "pack_UINT m buf 0 = (m', buf')" by (cases "pack_UINT m buf 0")
    then have m': "m' = m(buf := 0, buf + 1 := 0)" and buf': "buf' = buf + 2"
      by (simp_all add: pack_UINT_def)
    from True have "i + 1 \<le> count" by simp
    from "1.IH" [OF True p [symmetric] refl this]
    have IH: "snd (prepare_offsets m' buf' (i + 1) count) = buf' + 2 * (count - (i + 1))"
      "\<And>a. fst (prepare_offsets m' buf' (i + 1) count) a =
        (if buf' \<le> a \<and> a < buf' + 2 * (count - (i + 1)) then 0 else m' a)"
      by simp_all
    have unf: "prepare_offsets m buf i count = prepare_offsets m' buf' (i + 1) count"
      using True p by (subst prepare_offsets.simps) simp
    from True have c: "2 * (count - i) = 2 + 2 * (count - (i + 1))" by simp
    have "snd (prepare_offsets m' buf' (i + 1) count) = buf + 2 * (count - i)"
      using IH(1) c buf' by simp
    moreover have "fst (prepare_offsets m' buf' (i + 1) count) a =
        (if buf \<le> a \<and> a < buf + 2 * (count - i) then 0 else m a)" for a
      using IH(2) [of a] c by (auto simp: m' buf')
    ultimately show ?thesis
      unfolding unf by blast
  qed
qed

lemmas prepare_unfold = prepare_CIP_MultiRequest_def make_MR_Request_def pack_USINT_def
  make_CIA_path_def CIA_path_size_def C_MessageRouter_def S_CIP_MultiRequest_def

lemma prepare_apply:
  assumes "1 \<le> N"
  shows "fst (prepare_CIP_MultiRequest m request N) a =
     (if request + 10 \<le> a \<and> a < request + 8 + 2 * N then 0
      else if a = request + 9 then ucast (drop_bit 8 ((of_nat ((N + 1) * 2) :: CN_UINT) AND 0xFF00))
      else if a = request + 8 then ucast ((of_nat ((N + 1) * 2) :: CN_UINT) AND 0x00FF)
      else if a = request + 7 then ucast (drop_bit 8 ((of_nat N :: CN_UINT) AND 0xFF00))
      else if a = request + 6 then ucast ((of_nat N :: CN_UINT) AND 0x00FF)
      else if a = request + 5 then 1
      else if a = request + 4 then 0x24
      else if a = request + 3 then 2
      else if a = request + 2 then 0x20
      else if a = request + 1 then 2
      else if a = request then 0x0A
      else m a)"
proof -
  have eff: "fst (prepare_offsets m' buf 1 N) a =
        (if buf \<le> a \<and> a < buf + 2 * (N - 1) then 0 else m' a)" for m' buf
    using prepare_offsets_effect [OF assms, of m' buf] by blast
  from assms have N: "request + 10 + 2 * (N - 1) = request + 8 + 2 * N" by simp
  show ?thesis
    unfolding prepare_unfold Let_def split_beta fst_conv snd_conv pack_UINT_snd eff
    using N by (auto simp: pack_UINT_def)
qed

lemma prepare_table:
  assumes "1 \<le> N"
  shows "multi_table (fst (prepare_CIP_MultiRequest m request N)) request N
           (\<lambda>i. if i = 0 then of_nat ((N + 1) * 2) else 0)"
proof -
  let ?m = "fst (prepare_CIP_MultiRequest m request N)"
  note ap = prepare_apply [OF assms, of m request]
  have a1: "?m (request + 1) = 2"
    by (simp add: ap)
  have "unpack_UINT ?m (request + 6) = (of_nat N, request + 6 + 2)"
    by (rule unpack_UINT_bytes) (simp_all add: ap)
  then have a2: "fst (unpack_UINT ?m (request + 6)) = of_nat N" by simp
  have "unpack_UINT ?m (request + 8) = (of_nat ((N + 1) * 2), request + 8 + 2)"
    by (rule unpack_UINT_bytes) (simp_all add: ap)
  then have a3: "fst (unpack_UINT ?m (request + 8)) = of_nat ((N + 1) * 2)" by simp
  have a4: "fst (unpack_UINT ?m (request + 8 + 2 * i)) = 0" if "0 < i" "i < N" for i
    using that by (simp add: unpack_UINT_def ap)
  have "fst (unpack_UINT ?m (request + 8 + 2 * i)) = (if i = 0 then of_nat ((N + 1) * 2) else 0)"
    if "i < N" for i
    using that a3 a4 [of i] by (cases "i = 0") simp_all
  with a1 a2 show ?thesis
    unfolding multi_table_def by blast
qed


lemma unat_of_nat_UINT: "n < 65536 \<Longrightarrow> unat (of_nat n :: CN_UINT) = n"
  by (simp add: unat_of_nat)

lemma item_unfold:
  assumes "multi_table m request N offs" "N < 65536"
  shows "CIP_MultiRequest_item m request i s =
     (if N \<le> i then (m, None)
      else if offs i = 0 then (m, None)
      else if i + 1 < N
      then (fst (pack_UINT m (request + 8 + 2 * (i + 1)) (of_nat (unat (offs i) + s))),
            Some (request + 6 + unat (offs i)))
      else (m, Some (request + 6 + unat (offs i))))"
proof -
  from assms(1) have path: "m (request + 1) = 2"
    and count: "fst (unpack_UINT m (request + 6)) = of_nat N"
    and offs: "\<And>j. j < N \<Longrightarrow> fst (unpack_UINT m (request + 8 + 2 * j)) = offs j"
    by (simp_all add: multi_table_def)
  have countp: "raw_MR_Request_data m request = request + 6"
    using path by (simp add: raw_MR_Request_data_def)
  have up: "unpack_UINT m (request + 6) = (of_nat N, request + 8)"
    using count by (simp add: unpack_UINT_def)
  have uN: "unat (of_nat N :: CN_UINT) = N"
    using assms(2) by (rule unat_of_nat_UINT)
  show ?thesis
  proof (cases "N \<le> i")
    case True
    then show ?thesis
      by (simp add: CIP_MultiRequest_item_def countp up uN)
  next
    case False
    then have i: "i < N" by simp
    with assms(2) have "i + 1 < 65536" by simp
    then have ui: "unat (of_nat (i + 1) :: CN_UINT) = i + 1"
      by (rule unat_of_nat_UINT)
    have lt: "(of_nat (i + 1) :: CN_UINT) < of_nat N \<longleftrightarrow> i + 1 < N"
      by (simp only: word_less_nat_alt ui uN)
    have uo: "unpack_UINT m (request + 8 + 2 * i) = (offs i, request + 8 + 2 * i + 2)"
      using offs [OF i] by (simp add: unpack_UINT_def)
    show ?thesis
      using False
      by (simp only: CIP_MultiRequest_item_def countp up uN Let_def split_conv uo lt ui)
  qed
qed


lemma multi_table_pack:
  assumes "multi_table m request N offs" "k < N"
  shows "multi_table (fst (pack_UINT m (request + 8 + 2 * k) v)) request N (offs(k := v))"
proof -
  let ?m' = "fst (pack_UINT m (request + 8 + 2 * k) v)"
  from assms(1) have path: "m (request + 1) = 2"
    and count: "fst (unpack_UINT m (request + 6)) = of_nat N"
    and offs: "\<And>j. j < N \<Longrightarrow> fst (unpack_UINT m (request + 8 + 2 * j)) = offs j"
    by (simp_all add: multi_table_def)
  have p: "?m' (request + 1) = 2"
    using path by (simp add: pack_UINT_def)
  have "fst (unpack_UINT ?m' (request + 6)) = fst (unpack_UINT m (request + 6))"
    by (rule unpack_pack_UINT_other) simp
  with count have c: "fst (unpack_UINT ?m' (request + 6)) = of_nat N" by simp
  have o: "fst (unpack_UINT ?m' (request + 8 + 2 * j)) = (offs(k := v)) j" if "j < N" for j
  proof (cases "j = k")
    case True
    then show ?thesis by (simp add: unpack_pack_UINT_same)
  next
    case False
    then have "request + 8 + 2 * j + 2 \<le> request + 8 + 2 * k \<or>
               request + 8 + 2 * k + 2 \<le> request + 8 + 2 * j"
      by arith
    from unpack_pack_UINT_other [OF this] offs [OF that] False
    show ?thesis by simp
  qed
  from p c o show ?thesis
    unfolding multi_table_def by blast
qed

text \<open>State of the offset table once items below \<open>k\<close> have been deposited.\<close>

lemma deposit_items_table:
  assumes "multi_table m request N offs" "N < 65536" "i + length ts \<le> N"
    and "unat (offs i) + sum_list (butlast ts) < 65536"
    and "ts \<noteq> [] \<longrightarrow> 0 < unat (offs i)"
    and "\<forall>j. i < j \<and> j < N \<longrightarrow> offs j = 0"
  shows "\<exists>offs'. multi_table (fst (deposit_items m request i ts)) request N offs' \<and>
           (\<forall>j<i. offs' j = offs j) \<and>
           (\<forall>k<length ts. offs' (i + k) = of_nat (unat (offs i) + sum_list (take k ts))) \<and>
           (\<forall>j. i + length ts \<le> j \<and> j < N \<longrightarrow>
               offs' j = (if j = i + length ts
                          then of_nat (unat (offs i) + sum_list ts) else 0)) \<and>
           snd (deposit_items m request i ts)
             = map (\<lambda>k. Some (request + 6 + (unat (offs i) + sum_list (take k ts)))) [0..<length ts]"
  using assms
proof (induction ts arbitrary: m i offs)
  case Nil
  have a: "\<forall>j. i + length ([]::nat list) \<le> j \<and> j < N \<longrightarrow>
     offs j = (if j = i + length ([]::nat list)
               then of_nat (unat (offs i) + sum_list []) else 0)"
    using Nil.prems(6) by (auto simp: le_less)
  have b: "snd (deposit_items m request i []) =
     map (\<lambda>k. Some (request + 6 + (unat (offs i) + sum_list (take k [])))) [0..<length ([]::nat list)]"
    by simp
  have c: "multi_table (fst (deposit_items m request i [])) request N offs"
    using Nil.prems(1) by simp
  have d: "\<forall>k<length ([]::nat list). offs (i + k) = of_nat (unat (offs i) + sum_list (take k []))"
    by simp
  from a b c d show ?case by blast
next
  case (Cons s ts)
  from Cons.prems(3) have i: "i < N" by simp
  from Cons.prems(5) have nz: "offs i \<noteq> 0" by auto
  let ?v = "of_nat (unat (offs i) + s) :: CN_UINT"
  define m' where "m' = (if i + 1 < N then fst (pack_UINT m (request + 8 + 2 * (i + 1)) ?v) else m)"
  define offs1 where "offs1 = (if i + 1 < N then offs(i + 1 := ?v) else offs)"
  have it: "CIP_MultiRequest_item m request i s = (m', Some (request + 6 + unat (offs i)))"
    using item_unfold [OF Cons.prems(1,2), of i s] i nz by (simp add: m'_def)
  have tab: "multi_table m' request N offs1"
  proof (cases "i + 1 < N")
    case True
    from multi_table_pack [OF Cons.prems(1) True, of ?v] True show ?thesis
      by (simp only: m'_def offs1_def if_True)
  next
    case False
    with Cons.prems(1) show ?thesis by (simp only: m'_def offs1_def if_False)
  qed
  have uo: "unat (offs1 (i + 1)) = unat (offs i) + s" if "ts \<noteq> []"
  proof -
    from that Cons.prems(3) have lt: "i + 1 < N" by (cases ts) simp_all
    from that have "butlast (s # ts) = s # butlast ts" by simp
    with Cons.prems(4) have "unat (offs i) + s < 65536" by simp
    then have "unat ?v = unat (offs i) + s" by (rule unat_of_nat_UINT)
    with lt show ?thesis by (simp add: offs1_def)
  qed
  have wv: "(of_nat (unat (offs1 (i + 1)) + b) :: CN_UINT) = of_nat (unat (offs i) + s + b)"
    if "i + 1 < N" for b
    using that by (simp add: offs1_def)
  have p3: "i + 1 + length ts \<le> N" using Cons.prems(3) by simp
  have p5: "unat (offs1 (i + 1)) + sum_list (butlast ts) < 65536"
  proof (cases "ts = []")
    case True
    have "unat (offs1 (i + 1)) < 2 ^ LENGTH(16)" by (rule unsigned_less)
    with True show ?thesis by simp
  next
    case False
    then have "butlast (s # ts) = s # butlast ts" by simp
    with Cons.prems(4) uo [OF False] show ?thesis by simp
  qed
  have p6: "ts \<noteq> [] \<longrightarrow> 0 < unat (offs1 (i + 1))"
    using uo Cons.prems(5) by simp
  have p7: "\<forall>j. i + 1 < j \<and> j < N \<longrightarrow> offs1 j = 0"
    using Cons.prems(6) by (simp add: offs1_def)
  from Cons.IH [OF tab Cons.prems(2) p3 p5 p6 p7]
  obtain offs' where o: "multi_table (fst (deposit_items m' request (i + 1) ts)) request N offs'"
      "\<forall>j<i + 1. offs' j = offs1 j"
      "\<forall>k<length ts. offs' (i + 1 + k) = of_nat (unat (offs1 (i + 1)) + sum_list (take k ts))"
      "\<forall>j. i + 1 + length ts \<le> j \<and> j < N \<longrightarrow>
               offs' j = (if j = i + 1 + length ts
                          then of_nat (unat (offs1 (i + 1)) + sum_list ts) else 0)"
      "snd (deposit_items m' request (i + 1) ts)
             = map (\<lambda>k. Some (request + 6 + (unat (offs1 (i + 1)) + sum_list (take k ts)))) [0..<length ts]"
    by blast
  have d: "deposit_items m request i (s # ts) =
        (fst (deposit_items m' request (i + 1) ts),
         Some (request + 6 + unat (offs i)) # snd (deposit_items m' request (i + 1) ts))"
    by (simp add: it split_beta)
  have c1: "\<forall>j<i. offs' j = offs j"
    using o(2) by (auto simp: offs1_def)
  have c2: "offs' (i + k) = of_nat (unat (offs i) + sum_list (take k (s # ts)))"
    if "k < length (s # ts)" for k
  proof (cases k)
    case 0
    with o(2) [rule_format, of i] show ?thesis by (simp add: offs1_def)
  next
    case (Suc k')
    with that have k': "k' < length ts" by simp
    with p3 have lt: "i + 1 < N" by simp
    from o(3) [rule_format, OF k'] wv [OF lt, of "sum_list (take k' ts)"] Suc show ?thesis
      by (simp add: add.assoc)
  qed
  have c3: "offs' j = (if j = i + length (s # ts)
                          then of_nat (unat (offs i) + sum_list (s # ts)) else 0)"
    if "i + length (s # ts) \<le> j \<and> j < N" for j
  proof -
    from that have lt: "i + 1 < N" by simp
    from that have "i + 1 + length ts \<le> j \<and> j < N" by simp
    from o(4) [rule_format, OF this] wv [OF lt, of "sum_list ts"] show ?thesis
      by (simp add: add.assoc)
  qed
  have c4: "snd (deposit_items m request i (s # ts))
             = map (\<lambda>k. Some (request + 6 + (unat (offs i) + sum_list (take k (s # ts)))))
                 [0..<length (s # ts)]"
  proof (cases "ts = []")
    case True
    then show ?thesis by (simp add: it)
  next
    case False
    have "[0..<length (s # ts)] = 0 # map Suc [0..<length ts]"
      by (simp add: upt_conv_Cons map_Suc_upt del: upt_Suc)
    then show ?thesis
      unfolding d snd_conv o(5) uo [OF False]
      by (simp add: add.assoc comp_def del: upt_Suc)
  qed
  have r1: "multi_table (fst (deposit_items m request i (s # ts))) request N offs'"
    using o(1) by (simp only: d fst_conv)
  from c2 have c2': "\<forall>k<length (s # ts).
      offs' (i + k) = of_nat (unat (offs i) + sum_list (take k (s # ts)))"
    by blast
  from c3 have c3': "\<forall>j. i + length (s # ts) \<le> j \<and> j < N \<longrightarrow>
      offs' j = (if j = i + length (s # ts)
                 then of_nat (unat (offs i) + sum_list (s # ts)) else 0)"
    by blast
  show ?case
    by (rule exI [of _ offs']) (insert r1 c1 c2' c3' c4, intro conjI, assumption+)
qed

lemma sum_list_take_le:
  fixes xs :: "nat list"
  shows "k \<le> j \<Longrightarrow> sum_list (take k xs) \<le> sum_list (take j xs)"
proof -
  assume "k \<le> j"
  then have "take j xs = take k xs @ take (j - k) (drop k xs)"
    by (metis le_add_diff_inverse take_add)
  then show ?thesis by simp
qed

lemma prepared_deposit:
  assumes "k \<le> length ss" "ss \<noteq> []"
    and "2 * (length ss + 1) + sum_list (butlast ss) < 65536"
  shows "\<exists>offs'. multi_table (fst (deposit_items (fst (prepare_CIP_MultiRequest m request (length ss)))
                      request 0 (take k ss))) request (length ss) offs' \<and>
           (\<forall>i<k. offs' i = of_nat (2 * (length ss + 1) + sum_list (take i ss))) \<and>
           (\<forall>j. k < j \<and> j < length ss \<longrightarrow> offs' j = 0) \<and>
           snd (deposit_items (fst (prepare_CIP_MultiRequest m request (length ss))) request 0 (take k ss))
             = map (\<lambda>i. Some (request + 6 + (2 * (length ss + 1) + sum_list (take i ss)))) [0..<k]"
proof -
  let ?N = "length ss"
  define offs where "offs = (\<lambda>i::nat. if i = 0 then of_nat ((?N + 1) * 2) else (0 :: CN_UINT))"
  from assms(2) have N1: "1 \<le> ?N" by (cases ss) simp_all
  from assms(3) have N: "?N < 65536" and small: "(?N + 1) * 2 < 65536" by simp_all
  have "unat (of_nat ((?N + 1) * 2) :: CN_UINT) = (?N + 1) * 2"
    using small by (rule unat_of_nat_UINT)
  then have u0: "unat (offs 0) = (?N + 1) * 2"
    by (simp only: offs_def simp_thms if_True)
  have tab: "multi_table (fst (prepare_CIP_MultiRequest m request ?N)) request ?N offs"
    unfolding offs_def by (rule prepare_table [OF N1])
  have len: "length (take k ss) = k" using assms(1) by simp
  have "butlast (take k ss) = take (k - 1) ss"
    using assms(1) by (simp add: butlast_conv_take min_def)
  moreover have "butlast ss = take (?N - 1) ss"
    by (simp add: butlast_conv_take)
  moreover have "sum_list (take (k - 1) ss) \<le> sum_list (take (?N - 1) ss)"
    using assms(1) by (intro sum_list_take_le) simp
  ultimately have p4: "unat (offs 0) + sum_list (butlast (take k ss)) < 65536"
    using assms(3) u0 by simp
  have p3: "0 + length (take k ss) \<le> ?N" using assms(1) by simp
  have p5: "take k ss \<noteq> [] \<longrightarrow> 0 < unat (offs 0)"
    using u0 by simp
  have p6: "\<forall>j. 0 < j \<and> j < ?N \<longrightarrow> offs j = 0" by (simp add: offs_def)
  from deposit_items_table [OF tab N p3 p4 p5 p6]
  obtain offs' where o:
    "multi_table (fst (deposit_items (fst (prepare_CIP_MultiRequest m request ?N)) request 0 (take k ss)))
       request ?N offs'"
    "\<forall>i<length (take k ss). offs' (0 + i) = of_nat (unat (offs 0) + sum_list (take i (take k ss)))"
    "\<forall>j. 0 + length (take k ss) \<le> j \<and> j < ?N \<longrightarrow>
        offs' j = (if j = 0 + length (take k ss)
                   then of_nat (unat (offs 0) + sum_list (take k ss)) else 0)"
    "snd (deposit_items (fst (prepare_CIP_MultiRequest m request ?N)) request 0 (take k ss))
       = map (\<lambda>i. Some (request + 6 + (unat (offs 0) + sum_list (take i (take k ss)))))
           [0..<length (take k ss)]"
    by blast
  have c2: "\<forall>i<k. offs' i = of_nat (2 * (?N + 1) + sum_list (take i ss))"
  proof (intro allI impI)
    fix i assume i: "i < k"
    then have "take i (take k ss) = take i ss" by (simp add: min_def)
    with o(2) [rule_format, of i] i len u0
    show "offs' i = of_nat (2 * (?N + 1) + sum_list (take i ss))"
      by (simp add: mult.commute)
  qed
  have c3: "\<forall>j. k < j \<and> j < ?N \<longrightarrow> offs' j = 0"
    using o(3) len by simp
  have c4: "snd (deposit_items (fst (prepare_CIP_MultiRequest m request ?N)) request 0 (take k ss))
             = map (\<lambda>i. Some (request + 6 + (2 * (?N + 1) + sum_list (take i ss)))) [0..<k]"
    unfolding o(4) len u0 by (simp add: min_def mult.commute)
  show ?thesis
    by (rule exI [of _ offs']) (insert o(1) c2 c3 c4, intro conjI, assumption+)
qed


lemmas item_eval = prepare_CIP_MultiRequest_def prepare_offsets.simps make_MR_Request_def
  pack_USINT_def pack_UINT_def unpack_UINT_def make_CIA_path_def CIA_path_size_def
  C_MessageRouter_def S_CIP_MultiRequest_def CIP_MultiRequest_item_def raw_MR_Request_data_def
  Let_def bytes_at_def CIP_MultiRequest_size_def

text \<open>
  Claim C3, as stated, fails on three counts. (1) A call that is out of
  ascending order is refused only when it runs ahead of the items deposited so
  far: after items 0 and 1 of a request for two items, asking for item 0 again
  returns its address. (2) Offsets are 16-bit fields: with sizes 65536 and 4,
  offset[1] is stored as 6, and item 1 is handed the address of item 0.
  (3) For a count of zero, \<^verbatim>\<open>prepare_CIP_MultiRequest\<close> still writes
  offset[0], behind the eight octets that \<^verbatim>\<open>CIP_MultiRequest_size\<close> reports.
\<close>

theorem CIP_MultiRequest_item_counterexample:
  "snd (CIP_MultiRequest_item
          (fst (deposit_items (fst (prepare_CIP_MultiRequest (\<lambda>a. 0xFF) 0 2)) 0 0 [4, 4]))
          0 0 4) = Some 12
   \<and> snd (deposit_items (fst (prepare_CIP_MultiRequest (\<lambda>a. 0xFF) 0 2)) 0 0 [65536, 4])
       = [Some 12, Some 12]
   \<and> fst (unpack_UINT
        (fst (deposit_items (fst (prepare_CIP_MultiRequest (\<lambda>a. 0xFF) 0 2)) 0 0 [65536, 4])) 10)
       = 6
   \<and> bytes_at (fst (prepare_CIP_MultiRequest (\<lambda>a. 0xFF) 0 0)) 8 2 = [2, 0]
   \<and> CIP_MultiRequest_size 0 0 = 8"
  by (simp add: item_eval upt_rec)


text \<open>
  Claim C3, amended. Let \<open>N \<ge> 1\<close> sizes be given such that every offset
  \<open>2 * (N + 1) + s\<^sub>0 + \<dots> + s\<^bsub>i-1\<^esub>\<close>, \<open>i < N\<close>, fits in 16 bits. After
  \<^verbatim>\<open>prepare_CIP_MultiRequest\<close> and the \<open>N\<close> calls of
  \<^verbatim>\<open>CIP_MultiRequest_item\<close> in ascending order, the count field (six octets
  into the request) holds \<open>N\<close>, offset[i] holds that sum, the pointer returned
  for item \<open>i\<close> is the address of the count field plus offset[i], and the last
  item ends \<^verbatim>\<open>CIP_MultiRequest_size\<close> octets after the start of the request.
  A call with \<open>i \<ge> N\<close> returns the null pointer, and so does, at any stage,
  a call for an item beyond the next one due (items \<open>0..k-1\<close> deposited,
  item \<open>j > k\<close> requested). A call for an item that has been deposited
  already (a repeated or an earlier index, \<open>j < k\<close>) is not refused: it
  returns the position of that item again.
\<close>

theorem CIP_MultiRequest_layout:
  assumes "ss \<noteq> []" and "2 * (length ss + 1) + sum_list (butlast ss) < 65536"
  shows "(let N = length ss;
              m1 = fst (prepare_CIP_MultiRequest m request N);
              m2 = fst (deposit_items m1 request 0 ss);
              ps = snd (deposit_items m1 request 0 ss);
              countp = request + 6
          in snd (prepare_CIP_MultiRequest m request N)
           \<and> raw_MR_Request_data m2 request = countp
           \<and> unat (fst (unpack_UINT m2 countp)) = N
           \<and> length ps = N
           \<and> (\<forall>i<N. unat (fst (unpack_UINT m2 (countp + 2 + 2 * i)))
                        = 2 * (N + 1) + sum_list (take i ss)
                    \<and> ps ! i = Some (countp + (2 * (N + 1) + sum_list (take i ss))))
           \<and> (\<exists>p. last ps = Some p
                  \<and> p + last ss = request + CIP_MultiRequest_size N (sum_list ss))
           \<and> (\<forall>i s. N \<le> i \<longrightarrow> CIP_MultiRequest_item m2 request i s = (m2, None))
           \<and> (\<forall>k j s. k < j \<and> j < N \<longrightarrow>
                 snd (CIP_MultiRequest_item (fst (deposit_items m1 request 0 (take k ss)))
                        request j s) = None)
           \<and> (\<forall>k j s. j < k \<and> k \<le> N \<longrightarrow>
                 snd (CIP_MultiRequest_item (fst (deposit_items m1 request 0 (take k ss)))
                        request j s)
                   = Some (countp + (2 * (N + 1) + sum_list (take j ss)))))"
proof -
  let ?N = "length ss"
  let ?m1 = "fst (prepare_CIP_MultiRequest m request ?N)"
  let ?m2 = "fst (deposit_items ?m1 request 0 ss)"
  let ?ps = "snd (deposit_items ?m1 request 0 ss)"
  let ?off = "\<lambda>i. 2 * (?N + 1) + sum_list (take i ss)"
  from assms(2) have N: "?N < 65536" by simp
  from assms(1) have N1: "1 \<le> ?N" by (cases ss) simp_all
  have bl: "butlast ss = take (?N - 1) ss" by (simp add: butlast_conv_take)
  have offb: "?off i < 65536" if "i < ?N" for i
  proof -
    from that have "sum_list (take i ss) \<le> sum_list (take (?N - 1) ss)"
      by (intro sum_list_take_le) simp
    with assms(2) bl show ?thesis by simp
  qed
  from prepared_deposit [OF le_refl assms, of m request]
  obtain offs' where o:
    "multi_table ?m2 request ?N offs'"
    "\<forall>i<?N. offs' i = of_nat (?off i)"
    "?ps = map (\<lambda>i. Some (request + 6 + ?off i)) [0..<?N]"
    by auto
  have c1: "snd (prepare_CIP_MultiRequest m request ?N)"
    by (simp add: prepare_CIP_MultiRequest_def split_beta Let_def)
  from o(1) have path: "?m2 (request + 1) = 2"
    and count: "fst (unpack_UINT ?m2 (request + 6)) = of_nat ?N"
    and tab: "\<And>i. i < ?N \<Longrightarrow> fst (unpack_UINT ?m2 (request + 8 + 2 * i)) = offs' i"
    by (simp_all add: multi_table_def)
  have c2: "raw_MR_Request_data ?m2 request = request + 6"
    using path by (simp add: raw_MR_Request_data_def)
  have c3: "unat (fst (unpack_UINT ?m2 (request + 6))) = ?N"
    unfolding count using N by (rule unat_of_nat_UINT)
  have c4: "length ?ps = ?N"
    unfolding o(3) by simp
  have c5: "unat (fst (unpack_UINT ?m2 (request + 6 + 2 + 2 * i))) = ?off i
          \<and> ?ps ! i = Some (request + 6 + ?off i)" if "i < ?N" for i
  proof -
    have eq: "request + 6 + 2 + 2 * i = request + 8 + 2 * i" by simp
    have "fst (unpack_UINT ?m2 (request + 8 + 2 * i)) = of_nat (?off i)"
      using tab [OF that] o(2) [rule_format, OF that] by (rule trans)
    then have "fst (unpack_UINT ?m2 (request + 6 + 2 + 2 * i)) = of_nat (?off i)"
      by (simp only: eq)
    moreover have "unat (of_nat (?off i) :: CN_UINT) = ?off i"
      using offb [OF that] by (rule unat_of_nat_UINT)
    moreover have "?ps ! i = Some (request + 6 + ?off i)"
      unfolding o(3) using that by simp
    ultimately show ?thesis by simp
  qed
  have c6: "\<exists>p. last ?ps = Some p
                  \<and> p + last ss = request + CIP_MultiRequest_size ?N (sum_list ss)"
  proof -
    from c4 N1 have ne: "?ps \<noteq> []" by auto
    then have "last ?ps = ?ps ! (?N - 1)"
      by (simp add: last_conv_nth c4)
    also have "\<dots> = Some (request + 6 + ?off (?N - 1))"
      using c5 [of "?N - 1"] N1 by simp
    finally have l: "last ?ps = Some (request + 6 + ?off (?N - 1))" .
    have "sum_list ss = sum_list (butlast ss) + last ss"
      using assms(1) by (metis append_butlast_last_id sum_list.Cons sum_list.Nil
          sum_list_append add.right_neutral)
    then have "request + 6 + ?off (?N - 1) + last ss
        = request + CIP_MultiRequest_size ?N (sum_list ss)"
      by (simp add: bl CIP_MultiRequest_size_def CIA_path_size_def)
    with l show ?thesis by blast
  qed
  have c7: "CIP_MultiRequest_item ?m2 request i s = (?m2, None)" if "?N \<le> i" for i s
    using item_unfold [OF o(1) N, of i s] that by simp
  have c8: "snd (CIP_MultiRequest_item (fst (deposit_items ?m1 request 0 (take k ss)))
                        request j s) = None" if "k < j \<and> j < ?N" for k j s
  proof -
    from that have k: "k \<le> ?N" by simp
    from prepared_deposit [OF k assms, of m request]
    obtain offs'' where t: "multi_table (fst (deposit_items ?m1 request 0 (take k ss))) request ?N offs''"
      "\<forall>j. k < j \<and> j < ?N \<longrightarrow> offs'' j = 0"
      by auto
    from t(2) that have "offs'' j = 0" by blast
    with item_unfold [OF t(1) N, of j s] show ?thesis by simp
  qed
  have c9: "snd (CIP_MultiRequest_item (fst (deposit_items ?m1 request 0 (take k ss)))
                        request j s) = Some (request + 6 + ?off j)"
    if "j < k \<and> k \<le> ?N" for k j s
  proof -
    from that have k: "k \<le> ?N" and jk: "j < k" and j: "j < ?N" by simp_all
    from prepared_deposit [OF k assms, of m request]
    obtain offs'' where t: "multi_table (fst (deposit_items ?m1 request 0 (take k ss))) request ?N offs''"
      "\<forall>i<k. offs'' i = of_nat (?off i)"
      by auto
    from t(2) jk have v: "offs'' j = of_nat (?off j)" by blast
    have "unat (of_nat (?off j) :: CN_UINT) = ?off j"
      using offb [OF j] by (rule unat_of_nat_UINT)
    with v have u: "unat (offs'' j) = ?off j" by simp
    then have nz: "offs'' j \<noteq> 0" by (auto simp: unat_eq_0 [symmetric])
    from j have nle: "\<not> ?N \<le> j" by simp
    show ?thesis
      unfolding item_unfold [OF t(1) N, of j s] using nle nz u by simp
  qed
  from c5 have c5': "\<forall>i<?N. unat (fst (unpack_UINT ?m2 (request + 6 + 2 + 2 * i))) = ?off i
          \<and> ?ps ! i = Some (request + 6 + ?off i)"
    by blast
  from c7 have c7': "\<forall>i s. ?N \<le> i \<longrightarrow> CIP_MultiRequest_item ?m2 request i s = (?m2, None)"
    by blast
  from c8 have c8': "\<forall>k j s. k < j \<and> j < ?N \<longrightarrow>
      snd (CIP_MultiRequest_item (fst (deposit_items ?m1 request 0 (take k ss))) request j s) = None"
    by blast
  from c9 have c9': "\<forall>k j s. j < k \<and> k \<le> ?N \<longrightarrow>
      snd (CIP_MultiRequest_item (fst (deposit_items ?m1 request 0 (take k ss))) request j s)
        = Some (request + 6 + ?off j)"
    by blast
  show ?thesis
    unfolding Let_def
    by (insert c1 c2 c3 c4 c5' c6 c7' c8' c9', intro conjI, assumption+)
qed

text \<open>Three items of 4, 6 and 8 octets in a request at address 0.\<close>

theorem CIP_MultiRequest_layout_witness:
  "snd (deposit_items (fst (prepare_CIP_MultiRequest (\<lambda>a. 0xFF) 0 3)) 0 0 [4, 6, 8]) ! 1
     = Some 18
   \<and> unat (fst (unpack_UINT
        (fst (deposit_items (fst (prepare_CIP_MultiRequest (\<lambda>a. 0xFF) 0 3)) 0 0 [4, 6, 8])) 10))
     = 12
   \<and> CIP_MultiRequest_size 3 18 = 32
   \<and> snd (CIP_MultiRequest_item
        (fst (deposit_items (fst (prepare_CIP_MultiRequest (\<lambda>a. 0xFF) 0 3)) 0 0 [4, 6, 8]))
        0 3 5) = None
   \<and> snd (CIP_MultiRequest_item
        (fst (deposit_items (fst (prepare_CIP_MultiRequest (\<lambda>a. 0xFF) 0 3)) 0 0 (take 1 [4, 6, 8])))
        0 2 8) = None
   \<and> snd (CIP_MultiRequest_item
        (fst (deposit_items (fst (prepare_CIP_MultiRequest (\<lambda>a. 0xFF) 0 3)) 0 0 (take 2 [4, 6, 8])))
        0 0 4) = Some 14"
proof -
  have h1: "[4, 6, 8 :: nat] \<noteq> []" by simp
  have h2: "2 * (length [4, 6, 8 :: nat] + 1) + sum_list (butlast [4, 6, 8 :: nat]) < 65536"
    by simp
  note t = CIP_MultiRequest_layout [OF h1 h2, of "\<lambda>a. 0xFF" 0, unfolded Let_def]
  from t have a: "\<forall>i<length [4, 6, 8 :: nat].
      unat (fst (unpack_UINT
        (fst (deposit_items (fst (prepare_CIP_MultiRequest (\<lambda>a. 0xFF) 0 (length [4, 6, 8 :: nat])))
           0 0 [4, 6, 8])) (0 + 6 + 2 + 2 * i)))
        = 2 * (length [4, 6, 8 :: nat] + 1) + sum_list (take i [4, 6, 8])
      \<and> snd (deposit_items (fst (prepare_CIP_MultiRequest (\<lambda>a. 0xFF) 0 (length [4, 6, 8 :: nat])))
           0 0 [4, 6, 8]) ! i
        = Some (0 + 6 + (2 * (length [4, 6, 8 :: nat] + 1) + sum_list (take i [4, 6, 8])))"
    by blast
  have b: "snd (deposit_items (fst (prepare_CIP_MultiRequest (\<lambda>a. 0xFF) 0 3)) 0 0 [4, 6, 8]) ! 1
     = Some 18
   \<and> unat (fst (unpack_UINT
        (fst (deposit_items (fst (prepare_CIP_MultiRequest (\<lambda>a. 0xFF) 0 3)) 0 0 [4, 6, 8])) 10))
     = 12"
    using a [rule_format, of 1] by (simp add: item_eval)
  from t have c: "\<forall>i s. length [4, 6, 8 :: nat] \<le> i \<longrightarrow>
      CIP_MultiRequest_item
        (fst (deposit_items (fst (prepare_CIP_MultiRequest (\<lambda>a. 0xFF) 0 (length [4, 6, 8 :: nat])))
           0 0 [4, 6, 8])) 0 i s
      = (fst (deposit_items (fst (prepare_CIP_MultiRequest (\<lambda>a. 0xFF) 0 (length [4, 6, 8 :: nat])))
           0 0 [4, 6, 8]), None)"
    by blast
  have d: "snd (CIP_MultiRequest_item
        (fst (deposit_items (fst (prepare_CIP_MultiRequest (\<lambda>a. 0xFF) 0 3)) 0 0 [4, 6, 8]))
        0 3 5) = None"
    using c [rule_format, of 3 5] by (simp add: item_eval)
  from t have e: "\<forall>k j s. k < j \<and> j < length [4, 6, 8 :: nat] \<longrightarrow>
      snd (CIP_MultiRequest_item
        (fst (deposit_items (fst (prepare_CIP_MultiRequest (\<lambda>a. 0xFF) 0 (length [4, 6, 8 :: nat])))
           0 0 (take k [4, 6, 8]))) 0 j s) = None"
    by blast
  have f: "snd (CIP_MultiRequest_item
        (fst (deposit_items (fst (prepare_CIP_MultiRequest (\<lambda>a. 0xFF) 0 3)) 0 0 (take 1 [4, 6, 8])))
        0 2 8) = None"
    using e [rule_format, of 1 2 8] by (simp add: item_eval)
  have g: "CIP_MultiRequest_size 3 18 = 32"
    by (simp add: CIP_MultiRequest_size_def CIA_path_size_def)
  from t have r: "\<forall>k j s. j < k \<and> k \<le> length [4, 6, 8 :: nat] \<longrightarrow>
      snd (CIP_MultiRequest_item
        (fst (deposit_items (fst (prepare_CIP_MultiRequest (\<lambda>a. 0xFF) 0 (length [4, 6, 8 :: nat])))
           0 0 (take k [4, 6, 8]))) 0 j s)
      = Some (0 + 6 + (2 * (length [4, 6, 8 :: nat] + 1) + sum_list (take j [4, 6, 8])))"
    by blast
  have h: "snd (CIP_MultiRequest_item
        (fst (deposit_items (fst (prepare_CIP_MultiRequest (\<lambda>a. 0xFF) 0 3)) 0 0 (take 2 [4, 6, 8])))
        0 0 4) = Some 14"
    using r [rule_format, of 2 0 4] by (simp add: item_eval)
  from b d f g h show ?thesis by blast
qed

subsection \<open>Tag paths\<close>

lemma ucast_mask_byte0:
  fixes e :: CN_UDINT
  shows "(ucast (e AND 0xFF) :: CN_USINT) = ucast e"
proof -
  have m: "(0xFF :: CN_UDINT) = mask 8" by (simp add: mask_eq_exp_minus_1)
  show ?thesis unfolding m by (rule bit_word_eqI) (auto simp: bit_simps)
qed

lemma ucast_mask_byte1:
  fixes e :: CN_UDINT
  shows "(ucast (drop_bit 8 (e AND 0xFF00)) :: CN_USINT) = ucast (drop_bit 8 e)"
proof -
  have m: "(0xFF00 :: CN_UDINT) = push_bit 8 (mask 8)" by (simp add: mask_eq_exp_minus_1)
  show ?thesis unfolding m by (rule bit_word_eqI) (auto simp: bit_simps)
qed

lemma ucast_mask_byte2:
  fixes e :: CN_UDINT
  shows "(ucast (drop_bit 16 (e AND 0xFF0000)) :: CN_USINT) = ucast (drop_bit 16 e)"
proof -
  have m: "(0xFF0000 :: CN_UDINT) = push_bit 16 (mask 8)" by (simp add: mask_eq_exp_minus_1)
  show ?thesis unfolding m by (rule bit_word_eqI) (auto simp: bit_simps)
qed

lemma ucast_mask_byte3:
  fixes e :: CN_UDINT
  shows "(ucast (drop_bit 24 (e AND 0xFF000000)) :: CN_USINT) = ucast (drop_bit 24 e)"
proof -
  have m: "(0xFF000000 :: CN_UDINT) = push_bit 24 (mask 8)" by (simp add: mask_eq_exp_minus_1)
  show ?thesis unfolding m by (rule bit_word_eqI) (auto simp: bit_simps)
qed

lemma bytes_at_append:
  "bytes_at m p (k + n) = bytes_at m p k @ bytes_at m (p + k) n"
  by (rule nth_equalityI) (auto simp: bytes_at_def nth_append)

lemma bytes_at_cong:
  "(\<And>a. p \<le> a \<Longrightarrow> a < p + n \<Longrightarrow> m a = m' a) \<Longrightarrow> bytes_at m p n = bytes_at m' p n"
  by (simp add: bytes_at_def)

lemma length_bytes_at: "length (bytes_at m p n) = n"
  by (simp add: bytes_at_def)

lemma length_wire_segment:
  "length (wire_segment (te_name nm)) = 2 + length nm + length nm mod 2"
  "length (wire_segment (te_element e)) = (if e \<le> 0xFF then 2 else if e \<le> 0xFFFF then 4 else 6)"
  by (auto simp: wire_segment_def odd_iff_mod_2_eq_one)

lemma even_length_wire_segment: "even (length (wire_segment e))"
proof (cases e)
  case (te_name nm)
  have "even (2 + length nm + length nm mod 2)" by presburger
  with te_name show ?thesis by (simp only: length_wire_segment)
next
  case (te_element x)
  then show ?thesis by (simp add: length_wire_segment)
qed

lemma even_length_wire_path: "even (length (wire_path ptag))"
  by (induction ptag) (simp_all add: wire_path_def even_length_wire_segment)

lemma tag_path_bytes_wire: "tag_path_bytes ptag bytes = bytes + length (wire_path ptag)"
proof (induction ptag bytes rule: tag_path_bytes.induct)
  case (1 bytes)
  show ?case by (simp add: wire_path_def)
next
  case (2 nm ptag bytes)
  then show ?case by (simp add: wire_path_def length_wire_segment Let_def)
next
  case (3 element ptag bytes)
  then show ?case by (simp add: wire_path_def length_wire_segment)
qed

lemma tag_path_size_wire: "2 * tag_path_size ptag = length (wire_path ptag)"
  using even_length_wire_path [of ptag]
  by (simp add: tag_path_size_def tag_path_bytes_wire)


lemma make_tag_path_Cons:
  "make_tag_path m path (e # ptag) =
     make_tag_path (write_segment m path e) (path + length (wire_segment e)) ptag"
  by (cases e) (simp_all add: write_segment_def Let_def length_wire_segment)

lemma write_segment_below: "a < path \<Longrightarrow> write_segment m path e a = m a"
  by (cases e) (simp_all add: write_segment_def Let_def memcpy_def)

lemma nth_bytes_at: "i < n \<Longrightarrow> bytes_at m p n ! i = m (p + i)"
  by (simp add: bytes_at_def)

lemma write_segment_name:
  "bytes_at (write_segment m path (te_name nm)) path (length (wire_segment (te_name nm)))
     = wire_segment (te_name nm)"
proof (rule nth_equalityI)
  show "length (bytes_at (write_segment m path (te_name nm)) path
          (length (wire_segment (te_name nm)))) = length (wire_segment (te_name nm))"
    by (simp add: length_bytes_at)
next
  fix i
  assume "i < length (bytes_at (write_segment m path (te_name nm)) path
          (length (wire_segment (te_name nm))))"
  then have i: "i < length (wire_segment (te_name nm))"
    by (simp only: length_bytes_at)
  then have i': "i < 2 + length nm + length nm mod 2"
    by (simp only: length_wire_segment)
  have "write_segment m path (te_name nm) (path + i) = wire_segment (te_name nm) ! i"
  proof -
    consider "i = 0" | "i = 1" | j where "i = 2 + j" "j < length nm"
      | "i = 2 + length nm" "odd (length nm)"
    proof -
      have "i = 0 \<or> i = 1 \<or> (2 \<le> i \<and> i - 2 < length nm) \<or>
            (i = 2 + length nm \<and> odd (length nm))"
        using i' by presburger
      then show ?thesis
      proof (elim disjE conjE)
        assume "2 \<le> i" "i - 2 < length nm"
        then have "i = 2 + (i - 2)" by simp
        then show ?thesis using \<open>i - 2 < length nm\<close> by (rule that(3))
      qed (auto intro: that)
    qed
    then show ?thesis
    proof cases
      case 1
      then show ?thesis
        by (simp add: write_segment_def Let_def memcpy_def wire_segment_def)
    next
      case 2
      then show ?thesis
        by (simp add: write_segment_def Let_def memcpy_def wire_segment_def)
    next
      case 3
      then show ?thesis
        by (simp add: write_segment_def Let_def memcpy_def wire_segment_def nth_append)
    next
      case 4
      then show ?thesis
        by (simp add: write_segment_def Let_def memcpy_def wire_segment_def nth_append
            odd_iff_mod_2_eq_one)
    qed
  qed
  with i show "bytes_at (write_segment m path (te_name nm)) path
          (length (wire_segment (te_name nm))) ! i = wire_segment (te_name nm) ! i"
    by (simp only: nth_bytes_at)
qed

lemma write_segment_element:
  "bytes_at (write_segment m path (te_element e)) path (length (wire_segment (te_element e)))
     = wire_segment (te_element e)"
  by (simp add: bytes_at_def length_wire_segment write_segment_def wire_segment_def upt_rec
      ucast_mask_byte0 ucast_mask_byte1 ucast_mask_byte2 ucast_mask_byte3)

lemma write_segment_bytes:
  "bytes_at (write_segment m path e) path (length (wire_segment e)) = wire_segment e"
  by (cases e) (simp_all only: write_segment_name write_segment_element)

lemma make_tag_path_snd: "snd (make_tag_path m path ptag) = path + length (wire_path ptag)"
proof (induction ptag arbitrary: m path)
  case Nil
  show ?case by (simp add: wire_path_def)
next
  case (Cons e ptag)
  show ?case
    unfolding make_tag_path_Cons Cons.IH by (simp add: wire_path_def)
qed

lemma make_tag_path_below: "a < path \<Longrightarrow> fst (make_tag_path m path ptag) a = m a"
proof (induction ptag arbitrary: m path)
  case Nil
  show ?case by simp
next
  case (Cons e ptag)
  from Cons.prems have "a < path + length (wire_segment e)" by simp
  from Cons.IH [OF this] Cons.prems show ?case
    unfolding make_tag_path_Cons by (simp add: write_segment_below)
qed

lemma make_tag_path_bytes:
  "bytes_at (fst (make_tag_path m path ptag)) path (length (wire_path ptag)) = wire_path ptag"
proof (induction ptag arbitrary: m path)
  case Nil
  show ?case by (simp add: wire_path_def bytes_at_def)
next
  case (Cons e ptag)
  let ?k = "length (wire_segment e)"
  let ?m1 = "write_segment m path e"
  let ?m' = "fst (make_tag_path ?m1 (path + ?k) ptag)"
  have len: "length (wire_path (e # ptag)) = ?k + length (wire_path ptag)"
    and wp: "wire_path (e # ptag) = wire_segment e @ wire_path ptag"
    by (simp_all add: wire_path_def)
  have "bytes_at ?m' path ?k = bytes_at ?m1 path ?k"
    by (rule bytes_at_cong) (rule make_tag_path_below)
  also have "\<dots> = wire_segment e" by (rule write_segment_bytes)
  finally have first: "bytes_at ?m' path ?k = wire_segment e" .
  have rest: "bytes_at ?m' (path + ?k) (length (wire_path ptag)) = wire_path ptag"
    by (rule Cons.IH)
  show ?case
    unfolding make_tag_path_Cons wp length_append bytes_at_append first rest ..
qed

text \<open>
  Claim C4. \<^verbatim>\<open>make_tag_path\<close> writes, from \<^verbatim>\<open>path\<close> on, exactly the wire
  path of the tag: for a name the octets 0x91, the length, the characters and
  a zero pad when the length is odd; for an index 0x28 and the index when it is
  at most 0xFF, 0x29, 0x00 and two little-endian octets when it is at most
  0xFFFF, and 0x2A, 0x00 and four little-endian octets otherwise. The number of
  octets written is even and is twice \<^verbatim>\<open>tag_path_size\<close>. (The length octet
  is the name's length cut to eight bits; it is the length itself for the
  names of up to 255 octets that the data model admits.)
\<close>

theorem make_tag_path_wire:
  "(let (m', path') = make_tag_path m path ptag
    in path' = path + 2 * tag_path_size ptag
     \<and> even (path' - path)
     \<and> length (wire_path ptag) = path' - path
     \<and> bytes_at m' path (path' - path) = wire_path ptag)"
proof -
  have s: "snd (make_tag_path m path ptag) = path + length (wire_path ptag)"
    by (rule make_tag_path_snd)
  have "bytes_at (fst (make_tag_path m path ptag)) path (length (wire_path ptag)) = wire_path ptag"
    by (rule make_tag_path_bytes)
  with s even_length_wire_path [of ptag] tag_path_size_wire [of ptag] show ?thesis
    by (simp add: split_beta)
qed

text \<open>The tag \<^verbatim>\<open>Fred.Barney[5]Wilma[300][70000]\<close> written at address 3.\<close>

theorem make_tag_path_wire_witness:
  "snd (make_tag_path (\<lambda>a. 0xFF) 3
          [te_name ''Fred'', te_name ''Barney'', te_element 5, te_name ''Wilma'',
           te_element 300, te_element 70000]) = 37
   \<and> tag_path_size [te_name ''Fred'', te_name ''Barney'', te_element 5, te_name ''Wilma'',
           te_element 300, te_element 70000] = 17
   \<and> bytes_at (fst (make_tag_path (\<lambda>a. 0xFF) 3
          [te_name ''Fred'', te_name ''Barney'', te_element 5, te_name ''Wilma'',
           te_element 300, te_element 70000])) 3 34
     = [0x91, 0x04, 0x46, 0x72, 0x65, 0x64,
        0x91, 0x06, 0x42, 0x61, 0x72, 0x6E, 0x65, 0x79,
        0x28, 0x05,
        0x91, 0x05, 0x57, 0x69, 0x6C, 0x6D, 0x61, 0x00,
        0x29, 0x00, 0x2C, 0x01,
        0x2A, 0x00, 0x70, 0x11, 0x01, 0x00]"
proof -
  let ?ptag = "[te_name ''Fred'', te_name ''Barney'', te_element 5, te_name ''Wilma'',
           te_element 300, te_element 70000]"
  have sz: "tag_path_size ?ptag = 17"
    by (simp add: tag_path_size_def)
  have wp: "wire_path ?ptag = [0x91, 0x04, 0x46, 0x72, 0x65, 0x64,
        0x91, 0x06, 0x42, 0x61, 0x72, 0x6E, 0x65, 0x79,
        0x28, 0x05,
        0x91, 0x05, 0x57, 0x69, 0x6C, 0x6D, 0x61, 0x00,
        0x29, 0x00, 0x2C, 0x01,
        0x2A, 0x00, 0x70, 0x11, 0x01, 0x00]"
    by (simp add: wire_path_def wire_segment_def)
  from make_tag_path_wire [of "\<lambda>a. 0xFF" 3 ?ptag] sz wp show ?thesis
    by (simp add: split_beta)
qed

subsection \<open>Parsing tags\<close>

lemma strcspn_zero_iff:
  "strcspn str ''.['' = 0 \<longleftrightarrow> str = [] \<or> hd str = CHR ''.'' \<or> hd str = CHR ''[''"
  by (cases str) (auto simp: strcspn_def)

lemma drop_strcspn: "drop (strcspn s r) s = dropWhile (\<lambda>c. c \<notin> set r) s"
  by (simp add: strcspn_def dropWhile_eq_drop [symmetric])

lemma take_strcspn: "take (strcspn s r) s = takeWhile (\<lambda>c. c \<notin> set r) s"
  by (simp add: strcspn_def takeWhile_eq_take [symmetric])

lemma strcspn_zero_takeWhile:
  "strcspn str r = 0 \<longleftrightarrow> takeWhile (\<lambda>c. c \<notin> set r) str = []"
  by (simp add: strcspn_def)

text \<open>One unfolding of the loop, by what follows the name.\<close>

lemma EIP_parse_loop_unfold:
  "EIP_parse_loop avail str tlist =
     (if takeWhile (\<lambda>c. c \<notin> set ''.['') str = [] then tlist
      else if avail < 2 then []
      else case dropWhile (\<lambda>c. c \<notin> set ''.['') str of
             [] \<Rightarrow> tlist @ [te_name (takeWhile (\<lambda>c. c \<notin> set ''.['') str)]
           | c # rest \<Rightarrow>
               if c = CHR ''.''
               then EIP_parse_loop (avail - 2) rest
                      (tlist @ [te_name (takeWhile (\<lambda>c. c \<notin> set ''.['') str)])
               else if avail = 2 then []
               else case strchr rest CHR '']'' of
                      None \<Rightarrow> []
                    | Some t \<Rightarrow> EIP_parse_loop (avail - 3) (tl t)
                         (tlist @ [te_name (takeWhile (\<lambda>c. c \<notin> set ''.['') str)]
                                @ [te_element (of_int (atol rest))]))"
proof -
  have a: "avail < 2 \<longleftrightarrow> avail = 0 \<or> avail = 1" by auto
  have t: "take (strcspn str ''.['') str = takeWhile (\<lambda>c. c \<notin> set ''.['') str"
    by (rule take_strcspn)
  show ?thesis
  proof (cases "dropWhile (\<lambda>c. c \<notin> set ''.['') str")
    case Nil
    then have d: "drop (strcspn str ''.['') str = []"
      by (simp only: drop_strcspn)
    show ?thesis
      unfolding Nil
      by (subst EIP_parse_loop.simps) (simp add: Let_def t d strcspn_zero_takeWhile a)
  next
    case (Cons c rest)
    then have d: "drop (strcspn str ''.['') str = c # rest"
      by (simp only: drop_strcspn)
    show ?thesis
      unfolding Cons
      by (subst EIP_parse_loop.simps)
         (simp add: Let_def t d strcspn_zero_takeWhile a split: option.split)
  qed
qed



lemma parse_stop:
  "takeWhile (\<lambda>c. c \<notin> set ''.['') str = [] \<Longrightarrow> EIP_parse_loop avail str tlist = tlist"
  by (subst EIP_parse_loop_unfold) (simp only: if_True simp_thms)

lemma parse_nomem:
  "takeWhile (\<lambda>c. c \<notin> set ''.['') str \<noteq> [] \<Longrightarrow> avail < 2 \<Longrightarrow>
   EIP_parse_loop avail str tlist = []"
  by (subst EIP_parse_loop_unfold) (simp only: if_True if_False)

lemma parse_end:
  "takeWhile (\<lambda>c. c \<notin> set ''.['') str \<noteq> [] \<Longrightarrow> \<not> avail < 2 \<Longrightarrow>
   dropWhile (\<lambda>c. c \<notin> set ''.['') str = [] \<Longrightarrow>
   EIP_parse_loop avail str tlist = tlist @ [te_name (takeWhile (\<lambda>c. c \<notin> set ''.['') str)]"
  by (subst EIP_parse_loop_unfold) (simp only: if_False list.case)

lemma parse_dot:
  "takeWhile (\<lambda>c. c \<notin> set ''.['') str \<noteq> [] \<Longrightarrow> \<not> avail < 2 \<Longrightarrow>
   dropWhile (\<lambda>c. c \<notin> set ''.['') str = CHR ''.'' # rest \<Longrightarrow>
   EIP_parse_loop avail str tlist =
     EIP_parse_loop (avail - 2) rest (tlist @ [te_name (takeWhile (\<lambda>c. c \<notin> set ''.['') str)])"
  by (subst EIP_parse_loop_unfold) (simp only: if_False list.case if_True simp_thms)

lemma parse_bracket_fail:
  "takeWhile (\<lambda>c. c \<notin> set ''.['') str \<noteq> [] \<Longrightarrow> \<not> avail < 2 \<Longrightarrow>
   dropWhile (\<lambda>c. c \<notin> set ''.['') str = c # rest \<Longrightarrow> c \<noteq> CHR ''.'' \<Longrightarrow>
   avail = 2 \<or> strchr rest CHR '']'' = None \<Longrightarrow>
   EIP_parse_loop avail str tlist = []"
  by (subst EIP_parse_loop_unfold, simp only: if_False list.case, cases "avail = 2")
     (simp_all only: if_True if_False option.case simp_thms)

lemma parse_bracket:
  "takeWhile (\<lambda>c. c \<notin> set ''.['') str \<noteq> [] \<Longrightarrow> \<not> avail < 2 \<Longrightarrow>
   dropWhile (\<lambda>c. c \<notin> set ''.['') str = c # rest \<Longrightarrow> c \<noteq> CHR ''.'' \<Longrightarrow>
   avail \<noteq> 2 \<Longrightarrow> strchr rest CHR '']'' = Some t \<Longrightarrow>
   EIP_parse_loop avail str tlist =
     EIP_parse_loop (avail - 3) (tl t)
       (tlist @ [te_name (takeWhile (\<lambda>c. c \<notin> set ''.['') str)]
              @ [te_element (of_int (atol rest))])"
  by (subst EIP_parse_loop_unfold) (simp only: if_False list.case option.case)

lemma EIP_parse_loop_empty_name:
  "str = [] \<or> hd str = CHR ''.'' \<or> hd str = CHR ''['' \<Longrightarrow> EIP_parse_loop avail str tlist = tlist"
  by (rule parse_stop) (cases str, auto)

lemma dropWhile_Cons_shorter: "dropWhile P xs = c # rest \<Longrightarrow> length rest < length xs"
  using length_dropWhile_le [of P xs] by simp

lemma dropWhile_neq_Nil: "dropWhile (\<lambda>x. x \<noteq> c) s = [] \<longleftrightarrow> c \<notin> set s"
  by (induction s) auto

lemma strchr_None: "strchr s c = None \<longleftrightarrow> c \<notin> set s"
proof (cases "dropWhile (\<lambda>x. x \<noteq> c) s")
  case Nil
  then have "c \<notin> set s" by (rule iffD1 [OF dropWhile_neq_Nil])
  moreover from Nil have "strchr s c = None" by (simp only: strchr_def list.case)
  ultimately show ?thesis by simp
next
  case (Cons x r)
  then have "dropWhile (\<lambda>x. x \<noteq> c) s \<noteq> []" by simp
  then have "c \<in> set s" using dropWhile_neq_Nil [of c s] by blast
  moreover from Cons have "strchr s c = Some (x # r)" by (simp only: strchr_def list.case)
  ultimately show ?thesis by simp
qed


lemma strchr_Some:
  "strchr s c = Some t \<Longrightarrow> \<exists>pre post. s = pre @ c # post \<and> t = c # post \<and> c \<notin> set pre"
proof -
  assume "strchr s c = Some t"
  then have t: "dropWhile (\<lambda>x. x \<noteq> c) s = t" "t \<noteq> []"
    by (auto simp: strchr_def split: list.splits)
  then have "hd t = c"
    using hd_dropWhile [of "\<lambda>x. x \<noteq> c" s] by auto
  with t(2) obtain post where post: "t = c # post" by (cases t) simp_all
  have "s = takeWhile (\<lambda>x. x \<noteq> c) s @ dropWhile (\<lambda>x. x \<noteq> c) s"
    by simp
  then have s: "s = takeWhile (\<lambda>x. x \<noteq> c) s @ c # post"
    unfolding t(1) post .
  have "c \<notin> set (takeWhile (\<lambda>x. x \<noteq> c) s)"
    by (auto dest: set_takeWhileD)
  with s post show ?thesis by blast
qed

lemma strchr_shorter: "strchr s c = Some t \<Longrightarrow> length (tl t) < length s"
  by (drule strchr_Some) auto

lemma strchr_append:
  "strchr s c = Some t \<Longrightarrow> strchr (s @ ys) c = Some (t @ ys)"
proof -
  assume "strchr s c = Some t"
  then obtain pre post where p: "s = pre @ c # post" "t = c # post" "c \<notin> set pre"
    by (blast dest: strchr_Some)
  from p(3) have "dropWhile (\<lambda>x. x \<noteq> c) (pre @ (c # post @ ys)) = dropWhile (\<lambda>x. x \<noteq> c) (c # post @ ys)"
    by (intro dropWhile_append2) auto
  with p(1) have "dropWhile (\<lambda>x. x \<noteq> c) (s @ ys) = c # post @ ys"
    by simp
  with p(2) show ?thesis by (simp add: strchr_def)
qed

text \<open>The result extends the list built so far, or is null.\<close>

lemma parse_cases [case_names stop nomem fin dot fail bracket]:
  assumes "takeWhile (\<lambda>c. c \<notin> set ''.['') str = [] \<Longrightarrow> thesis"
    and "takeWhile (\<lambda>c. c \<notin> set ''.['') str \<noteq> [] \<Longrightarrow> avail < 2 \<Longrightarrow> thesis"
    and "takeWhile (\<lambda>c. c \<notin> set ''.['') str \<noteq> [] \<Longrightarrow> \<not> avail < 2 \<Longrightarrow>
         dropWhile (\<lambda>c. c \<notin> set ''.['') str = [] \<Longrightarrow> thesis"
    and "\<And>rest. takeWhile (\<lambda>c. c \<notin> set ''.['') str \<noteq> [] \<Longrightarrow> \<not> avail < 2 \<Longrightarrow>
         dropWhile (\<lambda>c. c \<notin> set ''.['') str = CHR ''.'' # rest \<Longrightarrow> thesis"
    and "\<And>c rest. takeWhile (\<lambda>c. c \<notin> set ''.['') str \<noteq> [] \<Longrightarrow> \<not> avail < 2 \<Longrightarrow>
         dropWhile (\<lambda>c. c \<notin> set ''.['') str = c # rest \<Longrightarrow> c \<noteq> CHR ''.'' \<Longrightarrow>
         avail = 2 \<or> strchr rest CHR '']'' = None \<Longrightarrow> thesis"
    and "\<And>c rest t. takeWhile (\<lambda>c. c \<notin> set ''.['') str \<noteq> [] \<Longrightarrow> \<not> avail < 2 \<Longrightarrow>
         dropWhile (\<lambda>c. c \<notin> set ''.['') str = c # rest \<Longrightarrow> c \<noteq> CHR ''.'' \<Longrightarrow>
         avail \<noteq> 2 \<Longrightarrow> strchr rest CHR '']'' = Some t \<Longrightarrow> thesis"
  shows thesis
proof (cases "takeWhile (\<lambda>c. c \<notin> set ''.['') str = []")
  case True
  then show ?thesis by (rule assms(1))
next
  case nm: False
  show ?thesis
  proof (cases "avail < 2")
    case True
    with nm show ?thesis by (rule assms(2))
  next
    case av: False
    show ?thesis
    proof (cases "dropWhile (\<lambda>c. c \<notin> set ''.['') str")
      case Nil
      with nm av show ?thesis by (rule assms(3))
    next
      case (Cons c rest)
      show ?thesis
      proof (cases "c = CHR ''.''")
        case True
        with Cons have "dropWhile (\<lambda>c. c \<notin> set ''.['') str = CHR ''.'' # rest" by simp
        with nm av show ?thesis by (rule assms(4))
      next
        case c: False
        show ?thesis
        proof (cases "strchr rest CHR '']''")
          case None
          then have "avail = 2 \<or> strchr rest CHR '']'' = None" by simp
          with nm av Cons c show ?thesis by (rule assms(5))
        next
          case (Some t)
          show ?thesis
          proof (cases "avail = 2")
            case True
            then have "avail = 2 \<or> strchr rest CHR '']'' = None" by simp
            with nm av Cons c show ?thesis by (rule assms(5))
          next
            case False
            with nm av Cons c show ?thesis using Some by (rule assms(6))
          qed
        qed
      qed
    qed
  qed
qed

text \<open>The result extends the list built so far, or is null.\<close>

lemma EIP_parse_loop_shape:
  "EIP_parse_loop avail str tlist = [] \<or>
   (\<exists>ext. EIP_parse_loop avail str tlist = tlist @ ext \<and>
      (ext \<noteq> [] \<longrightarrow> (\<exists>n es. ext = te_name n # es \<and> n \<noteq> [])))"
proof (induction "length str" arbitrary: avail str tlist rule: less_induct)
  case less
  let ?nm = "takeWhile (\<lambda>c. c \<notin> set ''.['') str"
  show ?case
  proof (cases rule: parse_cases [where str = str and avail = avail])
    case stop
    then have "EIP_parse_loop avail str tlist = tlist"
      by (rule parse_stop)
    then show ?thesis by simp
  next
    case nomem
    then have "EIP_parse_loop avail str tlist = []"
      by (rule parse_nomem)
    then show ?thesis by simp
  next
    case fin
    then have "EIP_parse_loop avail str tlist = tlist @ [te_name ?nm]"
      by (rule parse_end)
    with fin(1) show ?thesis by blast
  next
    case (dot rest)
    then have r: "EIP_parse_loop avail str tlist
                  = EIP_parse_loop (avail - 2) rest (tlist @ [te_name ?nm])"
      by (rule parse_dot)
    from dot(3) have short: "length rest < length str" by (rule dropWhile_Cons_shorter)
    from less [OF short, of "avail - 2" "tlist @ [te_name ?nm]"]
    show ?thesis
    proof
      assume "EIP_parse_loop (avail - 2) rest (tlist @ [te_name ?nm]) = []"
      with r show ?thesis by simp
    next
      assume "\<exists>ext. EIP_parse_loop (avail - 2) rest (tlist @ [te_name ?nm])
                    = (tlist @ [te_name ?nm]) @ ext \<and>
               (ext \<noteq> [] \<longrightarrow> (\<exists>n es. ext = te_name n # es \<and> n \<noteq> []))"
      then obtain ext where "EIP_parse_loop (avail - 2) rest (tlist @ [te_name ?nm])
                    = (tlist @ [te_name ?nm]) @ ext" by blast
      with r have "EIP_parse_loop avail str tlist = tlist @ (te_name ?nm # ext)" by simp
      with dot(1) show ?thesis by blast
    qed
  next
    case (fail c rest)
    then have "EIP_parse_loop avail str tlist = []"
      by (rule parse_bracket_fail)
    then show ?thesis by simp
  next
    case (bracket c rest t)
    let ?tl = "tlist @ [te_name ?nm] @ [te_element (of_int (atol rest))]"
    from bracket have r: "EIP_parse_loop avail str tlist
                  = EIP_parse_loop (avail - 3) (tl t) ?tl"
      by (rule parse_bracket)
    from bracket(3) have "length rest < length str" by (rule dropWhile_Cons_shorter)
    with strchr_shorter [OF bracket(6)] have st: "length (tl t) < length str" by simp
    from less [OF st, of "avail - 3" ?tl]
    show ?thesis
    proof
      assume "EIP_parse_loop (avail - 3) (tl t) ?tl = []"
      with r show ?thesis by simp
    next
      assume "\<exists>ext. EIP_parse_loop (avail - 3) (tl t) ?tl = ?tl @ ext \<and>
               (ext \<noteq> [] \<longrightarrow> (\<exists>n es. ext = te_name n # es \<and> n \<noteq> []))"
      then obtain ext where "EIP_parse_loop (avail - 3) (tl t) ?tl = ?tl @ ext" by blast
      with r have "EIP_parse_loop avail str tlist
          = tlist @ (te_name ?nm # te_element (of_int (atol rest)) # ext)" by simp
      with bracket(1) show ?thesis by blast
    qed
  qed
qed


lemma takeWhile_append_stop: "\<not> P c \<Longrightarrow> takeWhile P (u @ c # ys) = takeWhile P u"
  by (induction u) simp_all

lemma atol_stop:
  assumes "\<not> isdigit c" "\<not> isspace c" "c \<noteq> CHR ''-''" "c \<noteq> CHR ''+''"
  shows "atol (xs @ c # ys) = atol (xs @ [c])"
proof -
  define w where "w = dropWhile isspace xs"
  have d: "dropWhile isspace (xs @ c # zs) = w @ c # zs" for zs
    unfolding w_def using assms(2) by (rule dropWhile_append3)
  have t: "takeWhile isdigit (u @ c # zs) = takeWhile isdigit u" for u zs
    using assms(1) by (rule takeWhile_append_stop)
  show ?thesis
  proof (cases w)
    case Nil
    with assms show ?thesis
      unfolding atol_def d by (simp add: Let_def)
  next
    case (Cons x ws)
    have "takeWhile isdigit (x # ws @ c # zs) = takeWhile isdigit (x # ws)" for zs
      using t [of "x # ws" zs] by simp
    with Cons t [of ws] show ?thesis
      unfolding atol_def d by (simp add: Let_def del: takeWhile.simps)
  qed
qed

lemma atol_append:
  assumes "CHR '']'' \<in> set rest"
  shows "atol (rest @ ys) = atol rest"
proof -
  from assms obtain pre post where r: "rest = pre @ CHR '']'' # post"
    by (auto simp: in_set_conv_decomp)
  have c: "\<not> isdigit CHR '']''" "\<not> isspace CHR '']''" "CHR '']'' \<noteq> CHR ''-''"
    "CHR '']'' \<noteq> CHR ''+''"
    by (simp_all add: isdigit_def isspace_def)
  have "atol (pre @ CHR '']'' # (post @ ys)) = atol (pre @ [CHR '']''])"
    by (rule atol_stop [OF c])
  moreover have "atol (pre @ CHR '']'' # post) = atol (pre @ [CHR '']''])"
    by (rule atol_stop [OF c])
  ultimately show ?thesis by (simp add: r)
qed

lemma name_chars_dot:
  "takeWhile (\<lambda>c. c \<notin> set ''.['') (t @ ''.'') = takeWhile (\<lambda>c. c \<notin> set ''.['') t"
  by (rule takeWhile_append_stop) simp

lemma after_name_dot:
  "dropWhile (\<lambda>c. c \<notin> set ''.['') (t @ ''.'') = dropWhile (\<lambda>c. c \<notin> set ''.['') t @ ''.''"
  by (rule dropWhile_append3) simp

text \<open>A dot at the very end of the string changes nothing.\<close>

lemma EIP_parse_loop_trailing_dot:
  "EIP_parse_loop avail (str @ ''.'') tlist = EIP_parse_loop avail str tlist"
proof (induction "length str" arbitrary: avail str tlist rule: less_induct)
  case less
  let ?P = "\<lambda>c. c \<notin> set ''.[''"
  let ?nm = "takeWhile ?P str"
  note nd = name_chars_dot [of str]
  note ad = after_name_dot [of str]
  show ?case
  proof (cases rule: parse_cases [where str = str and avail = avail])
    case stop
    from stop have "takeWhile ?P (str @ ''.'') = []" unfolding nd .
    then have "EIP_parse_loop avail (str @ ''.'') tlist = tlist" by (rule parse_stop)
    moreover from stop have "EIP_parse_loop avail str tlist = tlist" by (rule parse_stop)
    ultimately show ?thesis by simp
  next
    case nomem
    from nomem(1) have "takeWhile ?P (str @ ''.'') \<noteq> []" unfolding nd .
    then have "EIP_parse_loop avail (str @ ''.'') tlist = []" using nomem(2) by (rule parse_nomem)
    moreover from nomem have "EIP_parse_loop avail str tlist = []" by (rule parse_nomem)
    ultimately show ?thesis by simp
  next
    case fin
    from fin(1) have n: "takeWhile ?P (str @ ''.'') \<noteq> []" unfolding nd .
    from fin(3) have a: "dropWhile ?P (str @ ''.'') = CHR ''.'' # []" by (simp only: ad append_Nil)
    have "EIP_parse_loop avail (str @ ''.'') tlist
        = EIP_parse_loop (avail - 2) [] (tlist @ [te_name (takeWhile ?P (str @ ''.''))])"
      using n fin(2) a by (rule parse_dot)
    also have "\<dots> = tlist @ [te_name (takeWhile ?P (str @ ''.''))]"
      by (rule parse_stop) simp
    finally have "EIP_parse_loop avail (str @ ''.'') tlist = tlist @ [te_name ?nm]"
      by (simp only: nd)
    moreover from fin have "EIP_parse_loop avail str tlist = tlist @ [te_name ?nm]"
      by (rule parse_end)
    ultimately show ?thesis by simp
  next
    case (dot rest)
    from dot(1) have n: "takeWhile ?P (str @ ''.'') \<noteq> []" unfolding nd .
    from dot(3) have a: "dropWhile ?P (str @ ''.'') = CHR ''.'' # (rest @ ''.'')"
      by (simp only: ad append_Cons)
    have "EIP_parse_loop avail (str @ ''.'') tlist
        = EIP_parse_loop (avail - 2) (rest @ ''.'') (tlist @ [te_name (takeWhile ?P (str @ ''.''))])"
      using n dot(2) a by (rule parse_dot)
    also have "\<dots> = EIP_parse_loop (avail - 2) (rest @ ''.'') (tlist @ [te_name ?nm])"
      by (simp only: nd)
    also have "\<dots> = EIP_parse_loop (avail - 2) rest (tlist @ [te_name ?nm])"
      by (rule less) (rule dropWhile_Cons_shorter [OF dot(3)])
    also have "\<dots> = EIP_parse_loop avail str tlist"
      using dot by (rule parse_dot [symmetric])
    finally show ?thesis .
  next
    case (fail c rest)
    from fail(1) have n: "takeWhile ?P (str @ ''.'') \<noteq> []" unfolding nd .
    from fail(3) have a: "dropWhile ?P (str @ ''.'') = c # (rest @ ''.'')"
      by (simp only: ad append_Cons)
    from fail(5) have "avail = 2 \<or> strchr (rest @ ''.'') CHR '']'' = None"
      by (auto simp: strchr_None)
    with n fail(2) a fail(4) have "EIP_parse_loop avail (str @ ''.'') tlist = []"
      by (rule parse_bracket_fail)
    moreover from fail have "EIP_parse_loop avail str tlist = []"
      by (rule parse_bracket_fail)
    ultimately show ?thesis by simp
  next
    case (bracket c rest t)
    from bracket(1) have n: "takeWhile ?P (str @ ''.'') \<noteq> []" unfolding nd .
    from bracket(3) have a: "dropWhile ?P (str @ ''.'') = c # (rest @ ''.'')"
      by (simp only: ad append_Cons)
    from bracket(6) have s: "strchr (rest @ ''.'') CHR '']'' = Some (t @ ''.'')"
      by (rule strchr_append)
    from bracket(6) obtain post where t: "t = CHR '']'' # post" and "CHR '']'' \<in> set rest"
      by (auto dest: strchr_Some)
    then have at: "atol (rest @ ''.'') = atol rest" by (intro atol_append)
    from t have tl: "tl (t @ ''.'') = tl t @ ''.''" by simp
    from bracket(3) have "length rest < length str" by (rule dropWhile_Cons_shorter)
    with strchr_shorter [OF bracket(6)] have st: "length (tl t) < length str" by simp
    have "EIP_parse_loop avail (str @ ''.'') tlist
        = EIP_parse_loop (avail - 3) (tl (t @ ''.''))
            (tlist @ [te_name (takeWhile ?P (str @ ''.''))]
                   @ [te_element (of_int (atol (rest @ ''.'')))])"
      using n bracket(2) a bracket(4,5) s by (rule parse_bracket)
    also have "\<dots> = EIP_parse_loop (avail - 3) (tl t @ ''.'')
            (tlist @ [te_name ?nm] @ [te_element (of_int (atol rest))])"
      by (simp only: nd at tl)
    also have "\<dots> = EIP_parse_loop (avail - 3) (tl t)
            (tlist @ [te_name ?nm] @ [te_element (of_int (atol rest))])"
      by (rule less) (rule st)
    also have "\<dots> = EIP_parse_loop avail str tlist"
      using bracket by (rule parse_bracket [symmetric])
    finally show ?thesis .
  qed
qed


lemma name_then_stop:
  assumes "CHR ''.'' \<notin> set n \<and> CHR ''['' \<notin> set n" "c = CHR ''.'' \<or> c = CHR ''[''"
  shows "takeWhile (\<lambda>c. c \<notin> set ''.['') (n @ c # r) = n"
    and "dropWhile (\<lambda>c. c \<notin> set ''.['') (n @ c # r) = c # r"
proof -
  let ?P = "\<lambda>c. c \<notin> set ''.[''"
  from assms(2) have c: "\<not> ?P c" by auto
  from assms(1) have all: "\<forall>x\<in>set n. ?P x" by auto
  then have tn: "takeWhile ?P n = n" and dn: "dropWhile ?P n = []"
    by (simp_all only: takeWhile_eq_all_conv dropWhile_eq_Nil_conv)
  from takeWhile_append_stop [of ?P c n r, OF c] tn
  show "takeWhile ?P (n @ c # r) = n" by (rule trans)
  from dropWhile_append3 [of ?P c n r, OF c] dn
  show "dropWhile ?P (n @ c # r) = c # r" by simp
qed

text \<open>A bracket that the loop reaches and that is never closed makes the parse fail.\<close>

lemma strchr_first:
  "c \<notin> set x \<Longrightarrow> strchr (x @ c # rest) c = Some (c # rest)"
proof -
  assume "c \<notin> set x"
  then have "dropWhile (\<lambda>y. y \<noteq> c) (x @ (c # rest)) = dropWhile (\<lambda>y. y \<noteq> c) (c # rest)"
    by (intro dropWhile_append2) auto
  then show ?thesis by (simp add: strchr_def)
qed

lemma EIP_parse_loop_unterminated:
  assumes "\<forall>l\<in>set ls. lead_ok l"
    and "plain_name n"
    and "CHR '']'' \<notin> set r"
  shows "EIP_parse_loop avail (concat (map lead_text ls) @ n @ CHR ''['' # r) tlist = []"
  using assms(1)
proof (induction ls arbitrary: avail tlist)
  case Nil
  from assms(2) have n: "n \<noteq> []" "CHR ''.'' \<notin> set n \<and> CHR ''['' \<notin> set n"
    by (simp_all add: plain_name_def)
  note st = name_then_stop [OF n(2) disjI2 [OF refl], of r]
  have str: "concat (map lead_text []) @ n @ CHR ''['' # r = n @ CHR ''['' # r" by simp
  show ?case
  proof (cases "avail < 2")
    case True
    show ?thesis unfolding str
      by (rule parse_nomem) (simp_all only: st n True not_False_eq_True)
  next
    case False
    have "avail = 2 \<or> strchr r CHR '']'' = None"
      using assms(3) by (simp add: strchr_None)
    with False show ?thesis unfolding str
      by (intro parse_bracket_fail [where c = "CHR ''[''" and rest = r])
         (simp_all only: st n not_False_eq_True, simp_all)
  qed
next
  case (Cons l ls)
  let ?rest = "concat (map lead_text ls) @ n @ CHR ''['' # r"
  from Cons.prems have ok: "lead_ok l" and oks: "\<forall>l\<in>set ls. lead_ok l" by simp_all
  show ?case
  proof (cases l)
    case (name_dot m)
    with ok have m: "m \<noteq> []" "CHR ''.'' \<notin> set m \<and> CHR ''['' \<notin> set m"
      by (simp_all add: plain_name_def)
    note st = name_then_stop [OF m(2) disjI1 [OF refl], of ?rest]
    have str: "concat (map lead_text (l # ls)) @ n @ CHR ''['' # r = m @ CHR ''.'' # ?rest"
      using name_dot by simp
    show ?thesis
    proof (cases "avail < 2")
      case True
      show ?thesis unfolding str
        by (rule parse_nomem) (simp_all only: st m True not_False_eq_True)
    next
      case False
      have "EIP_parse_loop avail (m @ CHR ''.'' # ?rest) tlist
          = EIP_parse_loop (avail - 2) ?rest
              (tlist @ [te_name (takeWhile (\<lambda>c. c \<notin> set ''.['') (m @ CHR ''.'' # ?rest))])"
        using False by (intro parse_dot) (simp_all only: st m not_False_eq_True)
      also have "\<dots> = []"
        by (rule Cons.IH [OF oks])
      finally show ?thesis unfolding str .
    qed
  next
    case (name_index m x)
    with ok have m: "m \<noteq> []" "CHR ''.'' \<notin> set m \<and> CHR ''['' \<notin> set m"
      and x: "CHR '']'' \<notin> set x"
      by (simp_all add: plain_name_def)
    let ?after = "x @ CHR '']'' # ?rest"
    note st = name_then_stop [OF m(2) disjI2 [OF refl], of ?after]
    have str: "concat (map lead_text (l # ls)) @ n @ CHR ''['' # r = m @ CHR ''['' # ?after"
      using name_index by simp
    have sc: "strchr ?after CHR '']'' = Some (CHR '']'' # ?rest)"
      using x by (rule strchr_first)
    have nd: "CHR ''['' \<noteq> CHR ''.''" by simp
    show ?thesis
    proof (cases "avail < 2")
      case True
      show ?thesis unfolding str
        by (rule parse_nomem) (simp_all only: st m True not_False_eq_True)
    next
      case False
      show ?thesis
      proof (cases "avail = 2")
        case True
        then have "avail = 2 \<or> strchr ?after CHR '']'' = None" by simp
        with False show ?thesis unfolding str
          by (intro parse_bracket_fail [where c = "CHR ''[''" and rest = ?after])
             (simp_all only: st m not_False_eq_True, simp_all)
      next
        case a: False
        have t: "takeWhile (\<lambda>c. c \<notin> set ''.['') (m @ CHR ''['' # ?after) \<noteq> []"
          by (simp only: st m not_False_eq_True)
        have "EIP_parse_loop avail (m @ CHR ''['' # ?after) tlist
            = EIP_parse_loop (avail - 3) (tl (CHR '']'' # ?rest))
                (tlist @ [te_name (takeWhile (\<lambda>c. c \<notin> set ''.['') (m @ CHR ''['' # ?after))]
                       @ [te_element (of_int (atol ?after))])"
          using t False st(2) nd a sc by (rule parse_bracket)
        also have "\<dots> = EIP_parse_loop (avail - 3) ?rest
                (tlist @ [te_name (takeWhile (\<lambda>c. c \<notin> set ''.['') (m @ CHR ''['' # ?after))]
                       @ [te_element (of_int (atol ?after))])"
          by (simp only: list.sel)
        also have "\<dots> = []"
          by (rule Cons.IH [OF oks])
        finally show ?thesis unfolding str .
      qed
    qed
  qed
qed

lemmas parse_eval = EIP_parse_tag_def EIP_parse_loop.simps strcspn_def strchr_def atol_def LONG_MAX_def LONG_MIN_def
  isspace_def isdigit_def Let_def

text \<open>
  Claim C5, as stated, fails: a trailing dot and an empty name after a dot do
  not make \<^verbatim>\<open>EIP_parse_tag\<close> fail, and neither does an unclosed bracket
  behind such an empty name. The loop stops at the empty name and returns the
  segments parsed up to there.
\<close>

theorem EIP_parse_tag_trailing_dot_counterexample:
  "EIP_parse_tag 8 ''a.'' = [te_name ''a'']
   \<and> EIP_parse_tag 8 ''a..b'' = [te_name ''a'']
   \<and> EIP_parse_tag 8 ''a.['' = [te_name ''a'']"
  by (simp add: parse_eval)

text \<open>
  Claim C5, amended. \<^verbatim>\<open>EIP_parse_tag\<close> returns the null pointer when the
  first name is empty (the string is empty or begins with \<^verbatim>\<open>.\<close> or \<^verbatim>\<open>[\<close>),
  and when a name is followed by a \<^verbatim>\<open>[\<close> after which no \<^verbatim>\<open>]\<close> comes,
  everything before that name being names that are each followed by a dot or
  by a closed bracket; names are not empty. A dot at the very end of the
  string does not make the parse fail: the result is that for the string
  without it. Every list that is returned (not null) begins with a name
  segment whose name is not empty. All of this holds whatever number of
  allocations succeeds.
\<close>

theorem EIP_parse_tag_failures:
  "((str = [] \<or> hd str = CHR ''.'' \<or> hd str = CHR ''['') \<longrightarrow> EIP_parse_tag avail str = [])
   \<and> (((\<forall>l\<in>set ls. lead_ok l) \<and> plain_name n \<and> CHR '']'' \<notin> set r)
        \<longrightarrow> EIP_parse_tag avail (concat (map lead_text ls) @ n @ CHR ''['' # r) = [])
   \<and> EIP_parse_tag avail (str @ ''.'') = EIP_parse_tag avail str
   \<and> (EIP_parse_tag avail str \<noteq> []
        \<longrightarrow> (\<exists>nm es. EIP_parse_tag avail str = te_name nm # es \<and> nm \<noteq> []))"
proof (intro conjI impI)
  assume "str = [] \<or> hd str = CHR ''.'' \<or> hd str = CHR ''[''"
  then show "EIP_parse_tag avail str = []"
    unfolding EIP_parse_tag_def by (rule EIP_parse_loop_empty_name)
next
  assume "(\<forall>l\<in>set ls. lead_ok l) \<and> plain_name n \<and> CHR '']'' \<notin> set r"
  then show "EIP_parse_tag avail (concat (map lead_text ls) @ n @ CHR ''['' # r) = []"
    unfolding EIP_parse_tag_def by (intro EIP_parse_loop_unterminated) blast+
next
  show "EIP_parse_tag avail (str @ ''.'') = EIP_parse_tag avail str"
    unfolding EIP_parse_tag_def by (rule EIP_parse_loop_trailing_dot)
next
  assume ne: "EIP_parse_tag avail str \<noteq> []"
  from EIP_parse_loop_shape [of avail str "[]"] ne
  show "\<exists>nm es. EIP_parse_tag avail str = te_name nm # es \<and> nm \<noteq> []"
    unfolding EIP_parse_tag_def by auto
qed

text \<open>
  An empty string, an unclosed bracket after a name with a dot and a name with
  an index, a trailing dot, and a tag that parses.
\<close>

theorem EIP_parse_tag_failures_witness:
  "EIP_parse_tag 8 [] = []
   \<and> EIP_parse_tag 8 ''ab.c[1]d[12'' = []
   \<and> EIP_parse_tag 8 ''ab[3].'' = EIP_parse_tag 8 ''ab[3]''
   \<and> EIP_parse_tag 8 ''ab[3]'' = [te_name ''ab'', te_element 3]"
proof -
  note t1 = EIP_parse_tag_failures
    [of "[]" 8 "[name_dot ''ab'', name_index ''c'' ''1'']" "''d''" "''12''"]
  note t2 = EIP_parse_tag_failures
    [of "''ab[3]''" 8 "[name_dot ''ab'', name_index ''c'' ''1'']" "''d''" "''12''"]
  have h2: "(\<forall>l\<in>set [name_dot ''ab'', name_index ''c'' ''1'']. lead_ok l)
      \<and> plain_name ''d'' \<and> CHR '']'' \<notin> set ''12''"
    by (simp add: plain_name_def)
  have h4: "EIP_parse_tag 8 ''ab[3]'' \<noteq> []"
    by (simp add: parse_eval)
  from t1 have a: "EIP_parse_tag 8 [] = []" by blast
  from t1 h2 have "EIP_parse_tag 8
      (concat (map lead_text [name_dot ''ab'', name_index ''c'' ''1'']) @ ''d'' @ CHR ''['' # ''12'')
      = []" by blast
  then have b: "EIP_parse_tag 8 ''ab.c[1]d[12'' = []" by simp
  from t2 have "EIP_parse_tag 8 (''ab[3]'' @ ''.'') = EIP_parse_tag 8 ''ab[3]''" by blast
  then have c: "EIP_parse_tag 8 ''ab[3].'' = EIP_parse_tag 8 ''ab[3]''" by simp
  from t2 h4 have "\<exists>nm es. EIP_parse_tag 8 ''ab[3]'' = te_name nm # es \<and> nm \<noteq> []" by blast
  then have d: "EIP_parse_tag 8 ''ab[3]'' = [te_name ''ab'', te_element 3]"
    by (simp add: parse_eval)
  from a b c d show ?thesis by blast
qed

subsection \<open>Growing a buffer\<close>

lemma bytes_at_memcpy:
  "length src = n \<Longrightarrow> bytes_at (memcpy m dst src) dst n = src"
  by (rule nth_equalityI) (simp_all add: bytes_at_def memcpy_def)

lemma int_of_size_t_small:
  assumes "n < 2 ^ 31"
  shows "int_of_size_t n = int n"
proof -
  have "sint (of_nat n :: 32 word) = signed_take_bit 31 (int n)"
    using sint_sbintrunc' [where 'a = 32, of "int n"] by simp
  also have "\<dots> = int n"
    using assms by (intro signed_take_bit_int_eq_self) simp_all
  finally show ?thesis by (simp only: int_of_size_t_def)
qed

lemma size_t_of_int_of_size_t:
  "n < 2 ^ 31 \<Longrightarrow> size_t_of_int (int_of_size_t n) = n"
  by (simp add: size_t_of_int_def int_of_size_t_small unat_of_nat)

text \<open>
  For a size below 2^31 the function does what a growing buffer should: on
  success the size is the larger of the old size and the requested one, the
  first old-size octets of a buffer that existed are the same afterwards; when
  \<^verbatim>\<open>malloc\<close> fails the result is false and pointer, size and heap are as
  before.
\<close>

lemma EIP_reserve_buffer_small:
  assumes "size' < 2 ^ 31"
  shows "case EIP_reserve_buffer malloc h buffer size' requested of
      None \<Rightarrow> False
    | Some (h', buffer', size'', ok) \<Rightarrow>
        (ok \<longrightarrow> size'' = max size' requested \<and> size' \<le> size''
               \<and> (buffer \<noteq> 0 \<longrightarrow>
                     bytes_at (store h') buffer' size' = bytes_at (store h) buffer size'))
      \<and> (ok \<longleftrightarrow> requested \<le> size' \<or> malloc \<noteq> 0)
      \<and> (\<not> ok \<longrightarrow> h' = h \<and> buffer' = buffer \<and> size'' = size')
      \<and> (requested \<le> size' \<longrightarrow> h' = h \<and> buffer' = buffer \<and> size'' = size')"
proof (cases "requested \<le> size'")
  case True
  then show ?thesis by (simp add: EIP_reserve_buffer_def)
next
  case False
  note n = size_t_of_int_of_size_t [OF assms]
  show ?thesis
  proof (cases "malloc = 0")
    case True
    with False show ?thesis by (simp add: EIP_reserve_buffer_def)
  next
    case m: False
    have "bytes_at (memcpy (store h) malloc (bytes_at (store h) buffer size')) malloc size'
        = bytes_at (store h) buffer size'"
      by (rule bytes_at_memcpy) (rule length_bytes_at)
    with False m show ?thesis
      by (simp add: EIP_reserve_buffer_def Let_def n)
  qed
qed

text \<open>
  Claim C10 says that for every buffer state and every request
  \<^verbatim>\<open>EIP_reserve_buffer\<close> keeps the first old-size octets when it succeeds.
  The code copies \<^verbatim>\<open>int old_size\<close> octets instead of the old size. A buffer
  of 2^32 octets at address 100 that begins with the octet 7 is grown by one
  octet: \<^verbatim>\<open>old_size\<close> is 0, nothing is copied, the call returns true and the
  new buffer at address 200 begins with what the heap held there, 0. With a
  buffer of 2^31 octets \<^verbatim>\<open>old_size\<close> is negative and \<^verbatim>\<open>memcpy\<close> is asked
  for 2^64 - 2^31 octets.
\<close>

theorem EIP_reserve_buffer_old_size:
  "EIP_reserve_buffer 200
       \<lparr>store = (\<lambda>a. if a = 100 then 7 else 0), blocks = [100 \<mapsto> 4294967296]\<rparr>
       100 4294967296 4294967297
     = Some (\<lparr>store = (\<lambda>a. if a = 100 then 7 else 0), blocks = [200 \<mapsto> 4294967297]\<rparr>,
             200, 4294967297, True)
   \<and> bytes_at (\<lambda>a. if a = 100 then 7 else 0) 100 1 = [7]
   \<and> bytes_at (\<lambda>a. if a = 100 then 7 else 0) 200 1 = [0]
   \<and> int_of_size_t 4294967296 = 0
   \<and> int_of_size_t 2147483648 = - 2147483648
   \<and> size_t_of_int (- 2147483648) = 18446744071562067968
   \<and> EIP_reserve_buffer 200
       \<lparr>store = (\<lambda>a. if a = 100 then 7 else 0), blocks = [100 \<mapsto> 2147483648]\<rparr>
       100 2147483648 2147483649
     = None"
proof -
  have a: "int_of_size_t 4294967296 = 0"
    and b: "int_of_size_t 2147483648 = - 2147483648"
    and c: "size_t_of_int (- 2147483648) = 18446744071562067968"
    and z: "size_t_of_int 0 = 0"
    by (simp_all add: int_of_size_t_def size_t_of_int_def)
  have m: "memcpy f 200 [] = f" for f :: memory
    by (auto simp add: memcpy_def fun_eq_iff)
  have e: "bytes_at f 100 0 = []" for f :: memory
    by (simp add: bytes_at_def)
  have u: "[100 :: nat \<mapsto> 4294967296 :: nat, 200 \<mapsto> 4294967297](100 := None)
             = [200 \<mapsto> 4294967297]"
    by (simp add: fun_eq_iff)
  have 1: "EIP_reserve_buffer 200
       \<lparr>store = (\<lambda>a. if a = 100 then 7 else 0), blocks = [100 \<mapsto> 4294967296]\<rparr>
       100 4294967296 4294967297
     = Some (\<lparr>store = (\<lambda>a. if a = 100 then 7 else 0), blocks = [200 \<mapsto> 4294967297]\<rparr>,
             200, 4294967297, True)"
    by (simp add: EIP_reserve_buffer_def Let_def a z m e u)
  have 2: "EIP_reserve_buffer 200
       \<lparr>store = (\<lambda>a. if a = 100 then 7 else 0), blocks = [100 \<mapsto> 2147483648]\<rparr>
       100 2147483648 2147483649
     = None"
    by (simp add: EIP_reserve_buffer_def Let_def b c)
  have 3: "bytes_at (\<lambda>a. if a = 100 then 7 else 0) 100 1 = [7 :: CN_USINT]"
    and 4: "bytes_at (\<lambda>a. if a = 100 then 7 else 0) 200 1 = [0 :: CN_USINT]"
    by (simp_all add: bytes_at_def)
  from 1 2 3 4 a b c show ?thesis by blast
qed

subsection \<open>Disconnecting a PLC\<close>

lemma PLC_tags_invalidate:
  "PLC_tags (invalidate_PLC_tags plc) = map invalidate_TagInfo (PLC_tags plc)"
  by (simp add: PLC_tags_def invalidate_PLC_tags_def map_concat comp_def)

text \<open>
  Claim C9, as stated, fails: \<^verbatim>\<open>invalidate_PLC_tags\<close> clears
  \<^verbatim>\<open>valid_data_size\<close> only if it gets the tag's data lock within the timeout.
  A tag whose lock is held elsewhere keeps its valid size across the
  disconnect.
\<close>

theorem disconnect_PLC_locked_tag_counterexample:
  "map valid_data_size
     (PLC_tags (disconnect_PLC id
        \<lparr>name = ''plc1'',
         scanlists =
           [\<lparr>period = 1, enabled = True,
             taginfos =
               [\<lparr>string_tag = ''T'', tag = [te_name ''T''], elements = 1,
                 cip_r_request_size = 8, cip_r_response_size = 10,
                 cip_w_request_size = 14, cip_w_response_size = 4,
                 data_lock = False, data_size = 6, valid_data_size = 6,
                 do_write = False, is_writing = False, data = [0xC4, 0, 1, 0, 0, 0]\<rparr>]\<rparr>],
         connection = \<lparr>sock = 5, transfer_buffer_limit = 500, net = ()\<rparr>\<rparr>))
   = [6]"
  by (simp add: disconnect_PLC_def PLC_tags_def invalidate_PLC_tags_def invalidate_TagInfo_def)

text \<open>
  Claim C9, amended. After \<^verbatim>\<open>disconnect_PLC\<close> on a connected PLC the socket
  field is 0, every tag on every scan list whose data lock the scan task obtains
  has \<^verbatim>\<open>valid_data_size\<close> 0, a tag whose lock it does not obtain is left as
  it was, and nothing else of a tag changes. On a PLC that is not connected
  \<^verbatim>\<open>disconnect_PLC\<close> changes nothing.
\<close>

theorem disconnect_PLC_invalidates:
  "(sock (connection plc) \<noteq> 0 \<longrightarrow>
      sock (connection (disconnect_PLC unregister plc)) = 0
    \<and> map (length \<circ> taginfos) (scanlists (disconnect_PLC unregister plc))
        = map (length \<circ> taginfos) (scanlists plc)
    \<and> PLC_tags (disconnect_PLC unregister plc)
        = map (\<lambda>info. if data_lock info then info\<lparr>valid_data_size := 0\<rparr> else info)
            (PLC_tags plc)
    \<and> (\<forall>info \<in> set (PLC_tags (disconnect_PLC unregister plc)).
          data_lock info \<longrightarrow> valid_data_size info = 0))
   \<and> (sock (connection plc) = 0 \<longrightarrow> disconnect_PLC unregister plc = plc)"
proof (intro conjI impI)
  assume c: "sock (connection plc) \<noteq> 0"
  let ?plc' = "plc\<lparr>connection := EIP_shutdown unregister (connection plc)\<rparr>"
  from c have d: "disconnect_PLC unregister plc = invalidate_PLC_tags ?plc'"
    by (simp add: disconnect_PLC_def)
  show "sock (connection (disconnect_PLC unregister plc)) = 0"
    by (simp add: d invalidate_PLC_tags_def EIP_shutdown_def EIP_disconnect_def)
  show "map (length \<circ> taginfos) (scanlists (disconnect_PLC unregister plc))
        = map (length \<circ> taginfos) (scanlists plc)"
    by (simp add: d invalidate_PLC_tags_def comp_def)
  have t: "PLC_tags (disconnect_PLC unregister plc) = map invalidate_TagInfo (PLC_tags plc)"
    unfolding d PLC_tags_invalidate by (simp add: PLC_tags_def)
  then show "PLC_tags (disconnect_PLC unregister plc)
        = map (\<lambda>info. if data_lock info then info\<lparr>valid_data_size := 0\<rparr> else info)
            (PLC_tags plc)"
    by (simp add: invalidate_TagInfo_def [abs_def])
  show "\<forall>info \<in> set (PLC_tags (disconnect_PLC unregister plc)).
          data_lock info \<longrightarrow> valid_data_size info = 0"
    unfolding t by (auto simp: invalidate_TagInfo_def)
next
  assume "sock (connection plc) = 0"
  then show "disconnect_PLC unregister plc = plc"
    by (simp add: disconnect_PLC_def)
qed

text \<open>A connected PLC with one free and one locked tag, and the same PLC disconnected.\<close>

theorem disconnect_PLC_invalidates_witness:
  "sock (connection (disconnect_PLC id
        \<lparr>name = ''plc1'',
         scanlists =
           [\<lparr>period = 1, enabled = True,
             taginfos =
               [\<lparr>string_tag = ''T'', tag = [te_name ''T''], elements = 1,
                 cip_r_request_size = 8, cip_r_response_size = 10,
                 cip_w_request_size = 14, cip_w_response_size = 4,
                 data_lock = True, data_size = 6, valid_data_size = 6,
                 do_write = False, is_writing = False, data = [0xC4, 0, 1, 0, 0, 0]\<rparr>,
                \<lparr>string_tag = ''U'', tag = [te_name ''U''], elements = 1,
                 cip_r_request_size = 8, cip_r_response_size = 10,
                 cip_w_request_size = 14, cip_w_response_size = 4,
                 data_lock = False, data_size = 6, valid_data_size = 6,
                 do_write = False, is_writing = False, data = [0xC4, 0, 2, 0, 0, 0]\<rparr>]\<rparr>],
         connection = \<lparr>sock = 5, transfer_buffer_limit = 500, net = ()\<rparr>\<rparr>)) = 0
   \<and> map valid_data_size (PLC_tags (disconnect_PLC id
        \<lparr>name = ''plc1'',
         scanlists =
           [\<lparr>period = 1, enabled = True,
             taginfos =
               [\<lparr>string_tag = ''T'', tag = [te_name ''T''], elements = 1,
                 cip_r_request_size = 8, cip_r_response_size = 10,
                 cip_w_request_size = 14, cip_w_response_size = 4,
                 data_lock = True, data_size = 6, valid_data_size = 6,
                 do_write = False, is_writing = False, data = [0xC4, 0, 1, 0, 0, 0]\<rparr>,
                \<lparr>string_tag = ''U'', tag = [te_name ''U''], elements = 1,
                 cip_r_request_size = 8, cip_r_response_size = 10,
                 cip_w_request_size = 14, cip_w_response_size = 4,
                 data_lock = False, data_size = 6, valid_data_size = 6,
                 do_write = False, is_writing = False, data = [0xC4, 0, 2, 0, 0, 0]\<rparr>]\<rparr>],
         connection = \<lparr>sock = 5, transfer_buffer_limit = 500, net = ()\<rparr>\<rparr>)) = [0, 6]
   \<and> disconnect_PLC id
        \<lparr>name = ''plc1'', scanlists = [],
         connection = \<lparr>sock = 0, transfer_buffer_limit = 500, net = ()\<rparr>\<rparr>
       = \<lparr>name = ''plc1'', scanlists = [],
         connection = \<lparr>sock = 0, transfer_buffer_limit = 500, net = ()\<rparr>\<rparr>"
proof -
  let ?T = "\<lparr>string_tag = ''T'', tag = [te_name ''T''], elements = 1,
                 cip_r_request_size = 8, cip_r_response_size = 10,
                 cip_w_request_size = 14, cip_w_response_size = 4,
                 data_lock = True, data_size = 6, valid_data_size = 6,
                 do_write = False, is_writing = False, data = [0xC4, 0, 1, 0, 0, 0]\<rparr>"
  let ?U = "\<lparr>string_tag = ''U'', tag = [te_name ''U''], elements = 1,
                 cip_r_request_size = 8, cip_r_response_size = 10,
                 cip_w_request_size = 14, cip_w_response_size = 4,
                 data_lock = False, data_size = 6, valid_data_size = 6,
                 do_write = False, is_writing = False, data = [0xC4, 0, 2, 0, 0, 0]\<rparr>"
  let ?plc = "\<lparr>name = ''plc1'',
         scanlists = [\<lparr>period = 1, enabled = True, taginfos = [?T, ?U]\<rparr>],
         connection = \<lparr>sock = 5, transfer_buffer_limit = 500, net = ()\<rparr>\<rparr>"
  let ?off = "\<lparr>name = ''plc1'', scanlists = [],
         connection = \<lparr>sock = 0, transfer_buffer_limit = 500, net = ()\<rparr>\<rparr>"
  have c: "sock (connection ?plc) \<noteq> 0" by simp
  from disconnect_PLC_invalidates [of ?plc id] c
  have 1: "sock (connection (disconnect_PLC id ?plc)) = 0"
    and 2: "PLC_tags (disconnect_PLC id ?plc)
        = map (\<lambda>info. if data_lock info then info\<lparr>valid_data_size := 0\<rparr> else info)
            (PLC_tags ?plc)"
    by blast+
  from 2 have 3: "map valid_data_size (PLC_tags (disconnect_PLC id ?plc)) = [0, 6]"
    by (simp add: PLC_tags_def)
  have "sock (connection ?off) = 0" by simp
  with disconnect_PLC_invalidates [of ?off id]
  have 4: "disconnect_PLC id ?off = ?off" by blast
  from 1 3 4 show ?thesis by blast
qed

subsection \<open>How many tags fit one transfer\<close>

lemma determine_loop_count:
  "fst (determine_loop limit infos count sz)
     = greedy_count limit (eligible infos) count (requests_size sz) (responses_size sz)"
proof (induction infos arbitrary: count sz)
  case Nil
  show ?case by (simp add: eligible_def)
next
  case (Cons info infos)
  show ?case
  proof (cases "cip_r_request_size info = 0")
    case True
    with Cons [of count sz] show ?thesis
      by (simp add: eligible_def split_beta)
  next
    case False
    then have e: "eligible (info # infos) = info # eligible infos"
      by (simp add: eligible_def)
    show ?thesis
    proof (cases "data_lock info")
      case l: False
      with False show ?thesis by (simp add: e)
    next
      case l: True
      let ?rq = "requests_size sz + tag_request_size info"
      let ?rs = "responses_size sz + tag_response_size info"
      show ?thesis
      proof (cases "CIP_MultiRequest_size (count + 1) ?rq > limit
                  \<or> CIP_MultiResponse_size (count + 1) ?rs > limit")
        case True
        with False l show ?thesis
          by (auto simp add: e tag_request_size_def tag_response_size_def Let_def)
      next
        case f: False
        let ?sz = "sz\<lparr>multi_request_size := CIP_MultiRequest_size (count + 1) ?rq,
                         multi_response_size := CIP_MultiResponse_size (count + 1) ?rs,
                         requests_size := ?rq, responses_size := ?rs\<rparr>"
        from f False l
        have "fst (determine_loop limit (info # infos) count sz)
            = fst (determine_loop limit infos (count + 1) ?sz)"
          by (auto simp add: tag_request_size_def tag_response_size_def Let_def split_beta)
        also have "\<dots> = greedy_count limit (eligible infos) (count + 1) ?rq ?rs"
          by (simp add: Cons)
        finally show ?thesis using f l by (simp add: e)
      qed
    qed
  qed
qed

lemma greedy_count_fit_prefix:
  "greedy_count limit ts c R S
     = (if \<forall>t\<in>set (take (Suc (fit_prefix limit ts c R S)) ts). data_lock t
        then c + fit_prefix limit ts c R S else 0)"
  by (induction limit ts c R S rule: greedy_count.induct) auto

lemma CIP_MultiRequest_size_mono:
  "a \<le> b \<Longrightarrow> x \<le> y \<Longrightarrow> CIP_MultiRequest_size a x \<le> CIP_MultiRequest_size b y"
  by (simp add: CIP_MultiRequest_size_def)

lemma CIP_MultiResponse_size_mono:
  "a \<le> b \<Longrightarrow> x \<le> y \<Longrightarrow> CIP_MultiResponse_size a x \<le> CIP_MultiResponse_size b y"
  by (simp add: CIP_MultiResponse_size_def)

text \<open>Whether \<open>j\<close> more tags fit when \<open>c\<close> are in already, with totals \<open>R\<close> and \<open>S\<close>.\<close>

lemma fit_prefix_props:
  "fit_prefix limit ts c R S \<le> length ts \<and>
   (\<forall>j. 1 \<le> j \<and> j \<le> fit_prefix limit ts c R S \<longrightarrow>
        CIP_MultiRequest_size (c + j) (R + sum_list (map tag_request_size (take j ts))) \<le> limit \<and>
        CIP_MultiResponse_size (c + j) (S + sum_list (map tag_response_size (take j ts))) \<le> limit) \<and>
   (\<forall>j. fit_prefix limit ts c R S < j \<and> j \<le> length ts \<longrightarrow>
        \<not> (CIP_MultiRequest_size (c + j) (R + sum_list (map tag_request_size (take j ts))) \<le> limit \<and>
           CIP_MultiResponse_size (c + j) (S + sum_list (map tag_response_size (take j ts))) \<le> limit))"
proof (induction ts arbitrary: c R S)
  case Nil
  show ?case by auto
next
  case (Cons t ts)
  let ?R = "R + tag_request_size t" and ?S = "S + tag_response_size t"
  have step: "c + Suc j = (c + 1) + j"
    "R + sum_list (map tag_request_size (take (Suc j) (t # ts)))
       = ?R + sum_list (map tag_request_size (take j ts))"
    "S + sum_list (map tag_response_size (take (Suc j) (t # ts)))
       = ?S + sum_list (map tag_response_size (take j ts))" for j
    by simp_all
  show ?case
  proof (cases "CIP_MultiRequest_size (c + 1) ?R > limit \<or> CIP_MultiResponse_size (c + 1) ?S > limit")
    case True
    then have K: "fit_prefix limit (t # ts) c R S = 0" by simp
    have "\<not> (CIP_MultiRequest_size (c + j) (R + sum_list (map tag_request_size (take j (t # ts)))) \<le> limit \<and>
           CIP_MultiResponse_size (c + j) (S + sum_list (map tag_response_size (take j (t # ts)))) \<le> limit)"
      if "0 < j" for j
    proof -
      from that obtain j' where j: "j = Suc j'" by (cases j) simp_all
      have "CIP_MultiRequest_size (c + 1) ?R
          \<le> CIP_MultiRequest_size ((c + 1) + j') (?R + sum_list (map tag_request_size (take j' ts)))"
        by (rule CIP_MultiRequest_size_mono) simp_all
      moreover have "CIP_MultiResponse_size (c + 1) ?S
          \<le> CIP_MultiResponse_size ((c + 1) + j') (?S + sum_list (map tag_response_size (take j' ts)))"
        by (rule CIP_MultiResponse_size_mono) simp_all
      ultimately show ?thesis
        unfolding j step using True by linarith
    qed
    with K show ?thesis by auto
  next
    case False
    then have K: "fit_prefix limit (t # ts) c R S = Suc (fit_prefix limit ts (c + 1) ?R ?S)"
      by simp
    let ?K' = "fit_prefix limit ts (c + 1) ?R ?S"
    note IH = Cons [of "c + 1" ?R ?S]
    have a: "Suc ?K' \<le> length (t # ts)" using IH by simp
    have b: "CIP_MultiRequest_size (c + j) (R + sum_list (map tag_request_size (take j (t # ts)))) \<le> limit \<and>
        CIP_MultiResponse_size (c + j) (S + sum_list (map tag_response_size (take j (t # ts)))) \<le> limit"
      if "1 \<le> j \<and> j \<le> Suc ?K'" for j
    proof -
      from that obtain j' where j: "j = Suc j'" "j' \<le> ?K'" by (cases j) simp_all
      show ?thesis
      proof (cases "j' = 0")
        case True
        with False show ?thesis unfolding j step by simp
      next
        case z: False
        then have "1 \<le> j' \<and> j' \<le> ?K'" using j(2) by simp
        with IH show ?thesis unfolding j step by blast
      qed
    qed
    have c: "\<not> (CIP_MultiRequest_size (c + j) (R + sum_list (map tag_request_size (take j (t # ts)))) \<le> limit \<and>
        CIP_MultiResponse_size (c + j) (S + sum_list (map tag_response_size (take j (t # ts)))) \<le> limit)"
      if "Suc ?K' < j \<and> j \<le> length (t # ts)" for j
    proof -
      from that obtain j' where j: "j = Suc j'" "?K' < j' \<and> j' \<le> length ts" by (cases j) simp_all
      with IH show ?thesis unfolding j step by blast
    qed
    from a b c show ?thesis unfolding K by blast
  qed
qed

lemma fit_prefix_packed:
  "fit_prefix limit ts 0 0 0 \<le> length ts"
  "1 \<le> j \<Longrightarrow> j \<le> fit_prefix limit ts 0 0 0 \<Longrightarrow> packed_fits limit ts j"
  "fit_prefix limit ts 0 0 0 < j \<Longrightarrow> j \<le> length ts \<Longrightarrow> \<not> packed_fits limit ts j"
  using fit_prefix_props [of limit ts 0 0 0] by (simp_all add: packed_fits_def)

lemma largest_fit_fit_prefix: "largest_fit limit ts = fit_prefix limit ts 0 0 0"
proof -
  let ?K = "fit_prefix limit ts 0 0 0"
  let ?A = "set (0 # filter (packed_fits limit ts) [1..<Suc (length ts)])"
  have "Max ?A = ?K"
  proof (rule Max_eqI)
    show "finite ?A" by simp
    show "y \<le> ?K" if "y \<in> ?A" for y
    proof (rule ccontr)
      assume "\<not> y \<le> ?K"
      then have "?K < y" by simp
      moreover from this that have "y \<le> length ts" "packed_fits limit ts y"
        by (auto simp del: upt_Suc)
      ultimately show False using fit_prefix_packed(3) by blast
    qed
    show "?K \<in> ?A"
    proof (cases "?K = 0")
      case True
      then show ?thesis by simp
    next
      case False
      then have "1 \<le> ?K" by simp
      with fit_prefix_packed(1,2) [where limit = limit and ts = ts] have "?K \<le> length ts" "packed_fits limit ts ?K"
        by simp_all
      with False have "?K \<in> set (filter (packed_fits limit ts) [1..<Suc (length ts)])"
        by (simp del: upt_Suc)
      then show ?thesis by (simp only: set_simps insert_iff simp_thms)
    qed
  qed
  then show ?thesis by (simp only: largest_fit_def)
qed

lemmas determine_eval = determine_MultiRequest_count_def fresh_TagInfo_def
  CIP_MultiRequest_size_def CIP_MultiResponse_size_def CIA_path_size_def
  tag_request_size_def tag_response_size_def packed_fits_def eligible_def Let_def

text \<open>
  Claim C1, as stated, fails when a data lock is not available: with a limit
  of 80 and two tags of read sizes 30, both fit one transfer, yet the function
  returns 0 because it cannot take the second tag's lock.
\<close>

theorem determine_MultiRequest_count_lock_counterexample:
  "fst (determine_MultiRequest_count 80
          [(fresh_TagInfo ''A'' [te_name ''A''] 1)
             \<lparr>cip_r_request_size := 30, cip_r_response_size := 30\<rparr>,
           (fresh_TagInfo ''B'' [te_name ''B''] 1)
             \<lparr>cip_r_request_size := 30, cip_r_response_size := 30, data_lock := False\<rparr>]
          \<lparr>requests_size = 0, responses_size = 0,
           multi_request_size = 0, multi_response_size = 0\<rparr>) = 0
   \<and> packed_fits 80
         (eligible
           [(fresh_TagInfo ''A'' [te_name ''A''] 1)
              \<lparr>cip_r_request_size := 30, cip_r_response_size := 30\<rparr>,
            (fresh_TagInfo ''B'' [te_name ''B''] 1)
              \<lparr>cip_r_request_size := 30, cip_r_response_size := 30, data_lock := False\<rparr>]) 2"
  by (simp add: determine_eval)

text \<open>
  Claim C1, amended. Let the eligible tags be those with a read request size
  other than 0, a tag whose \<^verbatim>\<open>do_write\<close> is set counting with its write sizes
  and any other with its read sizes, and let \<open>k\<close> be the largest number of
  leading eligible tags whose MultiRequest size and MultiResponse size are both
  within the limit (0 if not even one fits). \<^verbatim>\<open>determine_MultiRequest_count\<close>
  returns \<open>k\<close> if it can take the data lock of each of the first \<open>k + 1\<close>
  eligible tags, which are the ones it examines, and 0 otherwise. Every
  \<open>j\<close> from 1 to \<open>k\<close> fits, and no \<open>j\<close> above \<open>k\<close> does; in particular one
  more tag would exceed the limit.
\<close>

theorem determine_MultiRequest_count_largest:
  "fst (determine_MultiRequest_count limit infos sz)
     = (if \<forall>t\<in>set (take (Suc (largest_fit limit (eligible infos))) (eligible infos)). data_lock t
        then largest_fit limit (eligible infos) else 0)
   \<and> largest_fit limit (eligible infos) \<le> length (eligible infos)
   \<and> (\<forall>j. 1 \<le> j \<and> j \<le> largest_fit limit (eligible infos)
          \<longrightarrow> packed_fits limit (eligible infos) j)
   \<and> (\<forall>j. largest_fit limit (eligible infos) < j \<and> j \<le> length (eligible infos)
          \<longrightarrow> \<not> packed_fits limit (eligible infos) j)"
proof -
  let ?ts = "eligible infos"
  have "fst (determine_MultiRequest_count limit infos sz) = greedy_count limit ?ts 0 0 0"
    by (simp add: determine_MultiRequest_count_def determine_loop_count)
  also have "\<dots> = (if \<forall>t\<in>set (take (Suc (fit_prefix limit ?ts 0 0 0)) ?ts). data_lock t
        then fit_prefix limit ?ts 0 0 0 else 0)"
    by (simp add: greedy_count_fit_prefix)
  finally have "fst (determine_MultiRequest_count limit infos sz)
     = (if \<forall>t\<in>set (take (Suc (largest_fit limit ?ts)) ?ts). data_lock t
        then largest_fit limit ?ts else 0)"
    by (simp only: largest_fit_fit_prefix)
  with fit_prefix_packed [where limit = limit and ts = ?ts] show ?thesis
    by (simp only: largest_fit_fit_prefix) blast
qed

text \<open>
  A limit of 80 and three tags of read sizes 30 with free locks: two tags
  are packed, a third would not fit.
\<close>

theorem determine_MultiRequest_count_largest_witness:
  "fst (determine_MultiRequest_count 80
          [(fresh_TagInfo ''A'' [te_name ''A''] 1)
             \<lparr>cip_r_request_size := 30, cip_r_response_size := 30\<rparr>,
           (fresh_TagInfo ''B'' [te_name ''B''] 1)
             \<lparr>cip_r_request_size := 30, cip_r_response_size := 30\<rparr>,
           (fresh_TagInfo ''C'' [te_name ''C''] 1)
             \<lparr>cip_r_request_size := 30, cip_r_response_size := 30\<rparr>]
          \<lparr>requests_size = 0, responses_size = 0,
           multi_request_size = 0, multi_response_size = 0\<rparr>) = 2
   \<and> largest_fit 80
         (eligible
           [(fresh_TagInfo ''A'' [te_name ''A''] 1)
              \<lparr>cip_r_request_size := 30, cip_r_response_size := 30\<rparr>,
            (fresh_TagInfo ''B'' [te_name ''B''] 1)
              \<lparr>cip_r_request_size := 30, cip_r_response_size := 30\<rparr>,
            (fresh_TagInfo ''C'' [te_name ''C''] 1)
              \<lparr>cip_r_request_size := 30, cip_r_response_size := 30\<rparr>]) = 2
   \<and> packed_fits 80
         (eligible
           [(fresh_TagInfo ''A'' [te_name ''A''] 1)
              \<lparr>cip_r_request_size := 30, cip_r_response_size := 30\<rparr>,
            (fresh_TagInfo ''B'' [te_name ''B''] 1)
              \<lparr>cip_r_request_size := 30, cip_r_response_size := 30\<rparr>,
            (fresh_TagInfo ''C'' [te_name ''C''] 1)
              \<lparr>cip_r_request_size := 30, cip_r_response_size := 30\<rparr>]) 2
   \<and> \<not> packed_fits 80
         (eligible
           [(fresh_TagInfo ''A'' [te_name ''A''] 1)
              \<lparr>cip_r_request_size := 30, cip_r_response_size := 30\<rparr>,
            (fresh_TagInfo ''B'' [te_name ''B''] 1)
              \<lparr>cip_r_request_size := 30, cip_r_response_size := 30\<rparr>,
            (fresh_TagInfo ''C'' [te_name ''C''] 1)
              \<lparr>cip_r_request_size := 30, cip_r_response_size := 30\<rparr>]) 3"
proof -
  let ?infos = "[(fresh_TagInfo ''A'' [te_name ''A''] 1)
             \<lparr>cip_r_request_size := 30, cip_r_response_size := 30\<rparr>,
           (fresh_TagInfo ''B'' [te_name ''B''] 1)
             \<lparr>cip_r_request_size := 30, cip_r_response_size := 30\<rparr>,
           (fresh_TagInfo ''C'' [te_name ''C''] 1)
             \<lparr>cip_r_request_size := 30, cip_r_response_size := 30\<rparr>]"
  let ?sz = "\<lparr>requests_size = 0, responses_size = 0,
           multi_request_size = 0, multi_response_size = 0\<rparr>"
  note t = determine_MultiRequest_count_largest [of 80 ?infos ?sz]
  have c: "fst (determine_MultiRequest_count 80 ?infos ?sz) = 2"
    by (simp add: determine_eval)
  have l: "\<forall>t\<in>set (take (Suc (largest_fit 80 (eligible ?infos))) (eligible ?infos)). data_lock t"
    by (simp add: eligible_def fresh_TagInfo_def take_Cons')
  from t l c have m: "largest_fit 80 (eligible ?infos) = 2"
    by simp
  have two: "(1::nat) \<le> 2 \<and> 2 \<le> largest_fit 80 (eligible ?infos)"
    unfolding m by simp
  have three: "largest_fit 80 (eligible ?infos) < 3 \<and> 3 \<le> length (eligible ?infos)"
    unfolding m by (simp add: eligible_def fresh_TagInfo_def)
  from t two have p2: "packed_fits 80 (eligible ?infos) 2" by blast
  from t three have p3: "\<not> packed_fits 80 (eligible ?infos) 3" by blast
  from c m p2 p3 show ?thesis by blast
qed

subsection \<open>Completing the tag sizes\<close>

lemma complete_TagInfos_set:
  "info' \<in> set (snd (snd (complete_TagInfos EIP_read_tag c any_ok infos))) \<Longrightarrow>
   \<exists>c any_ok info. info \<in> set infos \<and>
      info' = snd (snd (complete_TagInfo EIP_read_tag c any_ok info))"
proof (induction infos arbitrary: c any_ok)
  case Nil
  then show ?case by simp
next
  case (Cons info infos)
  obtain c1 a1 i1 where h: "complete_TagInfo EIP_read_tag c any_ok info = (c1, a1, i1)"
    by (cases "complete_TagInfo EIP_read_tag c any_ok info")
  with Cons.prems have "info' = i1 \<or> info' \<in> set (snd (snd (complete_TagInfos EIP_read_tag c1 a1 infos)))"
    by (simp add: split_beta)
  then show ?case
  proof
    assume "info' = i1"
    with h have "info' = snd (snd (complete_TagInfo EIP_read_tag c any_ok info))" by simp
    then show ?thesis by (metis list.set_intros(1))
  next
    assume "info' \<in> set (snd (snd (complete_TagInfos EIP_read_tag c1 a1 infos)))"
    from Cons.IH [OF this] show ?thesis by (metis list.set_intros(2))
  qed
qed

lemma complete_ScanLists_set:
  "info' \<in> set (concat (map taginfos (snd (snd (complete_ScanLists EIP_read_tag c any_ok sls))))) \<Longrightarrow>
   \<exists>c any_ok info. info \<in> set (concat (map taginfos sls)) \<and>
      info' = snd (snd (complete_TagInfo EIP_read_tag c any_ok info))"
proof (induction sls arbitrary: c any_ok)
  case Nil
  then show ?case by simp
next
  case (Cons sl sls)
  obtain c1 a1 i1 where h: "complete_TagInfos EIP_read_tag c any_ok (taginfos sl) = (c1, a1, i1)"
    by (cases "complete_TagInfos EIP_read_tag c any_ok (taginfos sl)")
  with Cons.prems have "info' \<in> set i1 \<or>
      info' \<in> set (concat (map taginfos (snd (snd (complete_ScanLists EIP_read_tag c1 a1 sls)))))"
    by (auto simp add: split_beta)
  then show ?case
  proof
    assume "info' \<in> set i1"
    with h have "info' \<in> set (snd (snd (complete_TagInfos EIP_read_tag c any_ok (taginfos sl))))"
      by simp
    from complete_TagInfos_set [OF this] show ?thesis by auto
  next
    assume "info' \<in> set (concat (map taginfos (snd (snd (complete_ScanLists EIP_read_tag c1 a1 sls)))))"
    from Cons.IH [OF this] show ?thesis by auto
  qed
qed

lemma complete_PLC_tags:
  "info' \<in> set (PLC_tags (fst (complete_PLC_ScanList_TagInfos EIP_read_tag plc))) \<Longrightarrow>
   \<exists>c any_ok info. info \<in> set (PLC_tags plc) \<and>
      info' = snd (snd (complete_TagInfo EIP_read_tag c any_ok info))"
  unfolding PLC_tags_def complete_PLC_ScanList_TagInfos_def
  by (rule complete_ScanLists_set) (simp add: split_beta)

lemma complete_TagInfos_append:
  "complete_TagInfos EIP_read_tag c any_ok (xs @ ys) =
     (let (c1, a1, xs') = complete_TagInfos EIP_read_tag c any_ok xs;
          (c2, a2, ys') = complete_TagInfos EIP_read_tag c1 a1 ys
      in (c2, a2, xs' @ ys'))"
  by (induction xs arbitrary: c any_ok) (simp_all add: split_beta Let_def)

text \<open>The two nested loops visit the tags of all lists as one sequence.\<close>

lemma complete_ScanLists_flat:
  "(case complete_ScanLists EIP_read_tag c any_ok sls of
      (c', a', sls') \<Rightarrow> (c', a', concat (map taginfos sls')))
   = complete_TagInfos EIP_read_tag c any_ok (concat (map taginfos sls))"
proof (induction sls arbitrary: c any_ok)
  case Nil
  show ?case by simp
next
  case (Cons sl sls)
  obtain c1 a1 i1 where h: "complete_TagInfos EIP_read_tag c any_ok (taginfos sl) = (c1, a1, i1)"
    by (cases "complete_TagInfos EIP_read_tag c any_ok (taginfos sl)")
  obtain c2 a2 s2 where g: "complete_ScanLists EIP_read_tag c1 a1 sls = (c2, a2, s2)"
    by (cases "complete_ScanLists EIP_read_tag c1 a1 sls")
  from Cons.IH [of c1 a1] g
  have "complete_TagInfos EIP_read_tag c1 a1 (concat (map taginfos sls))
          = (c2, a2, concat (map taginfos s2))"
    by simp
  with h g show ?case
    by (simp add: complete_TagInfos_append)
qed

lemma complete_PLC_flat:
  "PLC_tags (fst (complete_PLC_ScanList_TagInfos EIP_read_tag plc))
     = snd (snd (complete_TagInfos EIP_read_tag (connection plc) False (PLC_tags plc)))"
  unfolding PLC_tags_def complete_PLC_ScanList_TagInfos_def
    complete_ScanLists_flat [symmetric]
  by (simp add: split_beta)

lemma complete_TagInfos_nth:
  "length (snd (snd (complete_TagInfos EIP_read_tag c any_ok infos))) = length infos \<and>
   (\<forall>i<length infos. \<exists>c' any_ok'.
       snd (snd (complete_TagInfos EIP_read_tag c any_ok infos)) ! i
         = snd (snd (complete_TagInfo EIP_read_tag c' any_ok' (infos ! i))))"
proof (induction infos arbitrary: c any_ok)
  case Nil
  show ?case by simp
next
  case (Cons info infos)
  obtain c1 a1 i1 where h: "complete_TagInfo EIP_read_tag c any_ok info = (c1, a1, i1)"
    by (cases "complete_TagInfo EIP_read_tag c any_ok info")
  have r: "snd (snd (complete_TagInfos EIP_read_tag c any_ok (info # infos)))
             = i1 # snd (snd (complete_TagInfos EIP_read_tag c1 a1 infos))"
    using h by (simp add: split_beta)
  have "\<exists>c' any_ok'. (i1 # snd (snd (complete_TagInfos EIP_read_tag c1 a1 infos))) ! i
           = snd (snd (complete_TagInfo EIP_read_tag c' any_ok' ((info # infos) ! i)))"
    if "i < length (info # infos)" for i
  proof (cases i)
    case 0
    with h show ?thesis by (metis nth_Cons_0 snd_conv)
  next
    case (Suc j)
    with that have "j < length infos" by simp
    with Cons.IH [of c1 a1] Suc show ?thesis by simp
  qed
  with Cons.IH [of c1 a1] show ?case
    unfolding r by simp
qed

lemma complete_TagInfos_length:
  "length (snd (snd (complete_TagInfos EIP_read_tag c any_ok infos))) = length infos"
  using complete_TagInfos_nth [of EIP_read_tag c any_ok infos] by blast

lemma complete_ScanLists_lengths:
  "map (\<lambda>sl. length (taginfos sl)) (snd (snd (complete_ScanLists EIP_read_tag c any_ok sls)))
     = map (\<lambda>sl. length (taginfos sl)) sls"
proof (induction sls arbitrary: c any_ok)
  case Nil
  show ?case by simp
next
  case (Cons sl sls)
  then show ?case
    using complete_TagInfos_length [of EIP_read_tag c any_ok "taginfos sl"]
    by (simp add: split_beta)
qed

text \<open>
  Claim C6. A tag whose two read sizes are 0 is probed with
  \<^verbatim>\<open>EIP_read_tag\<close>. If the probe returns data, the read sizes are what the
  probe stored, and the write sizes are derived from them: with a read response
  of more than 4 octets the write request size is the read request size plus
  the read response size less 4 and the write response size is 4, otherwise
  both are 0. If the probe fails all four sizes are 0, and
  \<^verbatim>\<open>determine_MultiRequest_count\<close> passes over the tag. A tag with a read size
  other than 0 is not probed and stays as it is. Every tag on every scan list
  of the PLC goes through this step: the tags of the PLC afterwards are the
  tags before, each in its place and on its list, completed one after the
  other in the order of the lists, the connection passed from each probe to
  the next.
\<close>

theorem complete_PLC_ScanList_TagInfos_sizes:
  "(cip_r_request_size info = 0 \<and> cip_r_response_size info = 0 \<longrightarrow>
      (case EIP_read_tag c (tag info) (elements info) of
         (c', got, rq, rs) \<Rightarrow>
           (case complete_TagInfo EIP_read_tag c any_ok info of
              (c'', any_ok', info') \<Rightarrow>
                c'' = c'
              \<and> (got \<longrightarrow> any_ok'
                    \<and> cip_r_request_size info' = rq \<and> cip_r_response_size info' = rs
                    \<and> (if rs > 4
                        then cip_w_request_size info' = rq + (rs - 4)
                           \<and> cip_w_response_size info' = 4
                        else cip_w_request_size info' = 0 \<and> cip_w_response_size info' = 0))
              \<and> (\<not> got \<longrightarrow> any_ok' = any_ok
                    \<and> cip_r_request_size info' = 0 \<and> cip_r_response_size info' = 0
                    \<and> cip_w_request_size info' = 0 \<and> cip_w_response_size info' = 0
                    \<and> fst (determine_loop limit (info' # infos) count sz)
                        = fst (determine_loop limit infos count sz)))))
   \<and> (cip_r_request_size info \<noteq> 0 \<or> cip_r_response_size info \<noteq> 0 \<longrightarrow>
        complete_TagInfo EIP_read_tag c any_ok info = (c, any_ok, info))
   \<and> (\<forall>info' \<in> set (PLC_tags (fst (complete_PLC_ScanList_TagInfos EIP_read_tag plc))).
        \<exists>c any_ok info. info \<in> set (PLC_tags plc)
          \<and> info' = snd (snd (complete_TagInfo EIP_read_tag c any_ok info)))
   \<and> PLC_tags (fst (complete_PLC_ScanList_TagInfos EIP_read_tag plc))
       = snd (snd (complete_TagInfos EIP_read_tag (connection plc) False (PLC_tags plc)))
   \<and> length (PLC_tags (fst (complete_PLC_ScanList_TagInfos EIP_read_tag plc)))
       = length (PLC_tags plc)
   \<and> (\<forall>i<length (PLC_tags plc). \<exists>c any_ok.
         PLC_tags (fst (complete_PLC_ScanList_TagInfos EIP_read_tag plc)) ! i
           = snd (snd (complete_TagInfo EIP_read_tag c any_ok (PLC_tags plc ! i))))
   \<and> map (\<lambda>sl. length (taginfos sl))
         (scanlists (fst (complete_PLC_ScanList_TagInfos EIP_read_tag plc)))
       = map (\<lambda>sl. length (taginfos sl)) (scanlists plc)"
proof (intro conjI impI ballI)
  assume z: "cip_r_request_size info = 0 \<and> cip_r_response_size info = 0"
  obtain c' got rq rs where r: "EIP_read_tag c (tag info) (elements info) = (c', got, rq, rs)"
    by (cases "EIP_read_tag c (tag info) (elements info)")
  show "case EIP_read_tag c (tag info) (elements info) of
         (c', got, rq, rs) \<Rightarrow>
           (case complete_TagInfo EIP_read_tag c any_ok info of
              (c'', any_ok', info') \<Rightarrow>
                c'' = c'
              \<and> (got \<longrightarrow> any_ok'
                    \<and> cip_r_request_size info' = rq \<and> cip_r_response_size info' = rs
                    \<and> (if rs > 4
                        then cip_w_request_size info' = rq + (rs - 4)
                           \<and> cip_w_response_size info' = 4
                        else cip_w_request_size info' = 0 \<and> cip_w_response_size info' = 0))
              \<and> (\<not> got \<longrightarrow> any_ok' = any_ok
                    \<and> cip_r_request_size info' = 0 \<and> cip_r_response_size info' = 0
                    \<and> cip_w_request_size info' = 0 \<and> cip_w_response_size info' = 0
                    \<and> fst (determine_loop limit (info' # infos) count sz)
                        = fst (determine_loop limit infos count sz)))"
    using z by (simp add: r complete_TagInfo_def Let_def split_beta)
next
  assume "cip_r_request_size info \<noteq> 0 \<or> cip_r_response_size info \<noteq> 0"
  then show "complete_TagInfo EIP_read_tag c any_ok info = (c, any_ok, info)"
    by (auto simp: complete_TagInfo_def)
next
  fix info'
  assume "info' \<in> set (PLC_tags (fst (complete_PLC_ScanList_TagInfos EIP_read_tag plc)))"
  then show "\<exists>c any_ok info. info \<in> set (PLC_tags plc)
          \<and> info' = snd (snd (complete_TagInfo EIP_read_tag c any_ok info))"
    by (rule complete_PLC_tags)
next
  show "PLC_tags (fst (complete_PLC_ScanList_TagInfos EIP_read_tag plc))
       = snd (snd (complete_TagInfos EIP_read_tag (connection plc) False (PLC_tags plc)))"
    by (rule complete_PLC_flat)
next
  show "length (PLC_tags (fst (complete_PLC_ScanList_TagInfos EIP_read_tag plc)))
       = length (PLC_tags plc)"
    unfolding complete_PLC_flat by (rule complete_TagInfos_length)
next
  show "\<forall>i<length (PLC_tags plc). \<exists>c any_ok.
         PLC_tags (fst (complete_PLC_ScanList_TagInfos EIP_read_tag plc)) ! i
           = snd (snd (complete_TagInfo EIP_read_tag c any_ok (PLC_tags plc ! i)))"
    unfolding complete_PLC_flat
    using complete_TagInfos_nth [of EIP_read_tag "connection plc" False "PLC_tags plc"]
    by blast
next
  show "map (\<lambda>sl. length (taginfos sl))
         (scanlists (fst (complete_PLC_ScanList_TagInfos EIP_read_tag plc)))
       = map (\<lambda>sl. length (taginfos sl)) (scanlists plc)"
    unfolding complete_PLC_ScanList_TagInfos_def
    using complete_ScanLists_lengths [of EIP_read_tag "connection plc" False "scanlists plc"]
    by (simp add: split_beta)
qed

text \<open>
  Two fresh tags on two scan lists; the controller answers the probe of the
  first (request 12 octets, response 14) and not that of the second.
\<close>

theorem complete_PLC_ScanList_TagInfos_sizes_witness:
  "map (\<lambda>info. (cip_r_request_size info, cip_r_response_size info,
                 cip_w_request_size info, cip_w_response_size info))
     (PLC_tags (fst (complete_PLC_ScanList_TagInfos
        (\<lambda>c t n. (c, t = [te_name ''A''], 12, if t = [te_name ''A''] then 14 else 0))
        \<lparr>name = ''plc1'',
         scanlists =
           [\<lparr>period = 1, enabled = True,
             taginfos = [fresh_TagInfo ''A'' [te_name ''A''] 2]\<rparr>,
            \<lparr>period = 5, enabled = True,
             taginfos = [fresh_TagInfo ''B'' [te_name ''B''] 1]\<rparr>],
         connection = \<lparr>sock = 5, transfer_buffer_limit = 500, net = ()\<rparr>\<rparr>)))
   = [(12, 14, 22, 4), (0, 0, 0, 0)]
   \<and> cip_w_request_size (snd (snd (complete_TagInfo
        (\<lambda>c t n. (c, t = [te_name ''A''], 12, if t = [te_name ''A''] then 14 else 0))
        \<lparr>sock = 5, transfer_buffer_limit = 500, net = ()\<rparr> False
        (fresh_TagInfo ''A'' [te_name ''A''] 2)))) = 22
   \<and> cip_r_request_size (snd (snd (complete_TagInfo
        (\<lambda>c t n. (c, t = [te_name ''A''], 12, if t = [te_name ''A''] then 14 else 0))
        \<lparr>sock = 5, transfer_buffer_limit = 500, net = ()\<rparr> False
        (fresh_TagInfo ''B'' [te_name ''B''] 1)))) = 0"
proof -
  let ?R = "\<lambda>(c :: unit EIPConnection) t (n :: nat).
              (c, t = [te_name ''A''], 12 :: nat, if t = [te_name ''A''] then 14 else 0 :: nat)"
  let ?c = "\<lparr>sock = 5, transfer_buffer_limit = 500, net = ()\<rparr>"
  let ?A = "fresh_TagInfo ''A'' [te_name ''A''] 2"
  let ?B = "fresh_TagInfo ''B'' [te_name ''B''] 1"
  let ?plc = "\<lparr>name = ''plc1'',
         scanlists = [\<lparr>period = 1, enabled = True, taginfos = [?A]\<rparr>,
                      \<lparr>period = 5, enabled = True, taginfos = [?B]\<rparr>],
         connection = ?c\<rparr>"
  have zA: "cip_r_request_size ?A = 0 \<and> cip_r_response_size ?A = 0"
    and zB: "cip_r_request_size ?B = 0 \<and> cip_r_response_size ?B = 0"
    by (simp_all add: fresh_TagInfo_def)
  from complete_PLC_ScanList_TagInfos_sizes
    [where info = ?A and EIP_read_tag = ?R and c = ?c and any_ok = False] zA
  have a: "cip_w_request_size (snd (snd (complete_TagInfo ?R ?c False ?A))) = 22"
    by (simp add: split_beta fresh_TagInfo_def)
  from complete_PLC_ScanList_TagInfos_sizes
    [where info = ?B and EIP_read_tag = ?R and c = ?c and any_ok = False] zB
  have b: "cip_r_request_size (snd (snd (complete_TagInfo ?R ?c False ?B))) = 0"
    by (simp add: split_beta fresh_TagInfo_def)
  from complete_PLC_ScanList_TagInfos_sizes [where EIP_read_tag = ?R and plc = ?plc]
  have "PLC_tags (fst (complete_PLC_ScanList_TagInfos ?R ?plc))
          = snd (snd (complete_TagInfos ?R (connection ?plc) False (PLC_tags ?plc)))"
    by blast
  then have p: "map (\<lambda>info. (cip_r_request_size info, cip_r_response_size info,
                 cip_w_request_size info, cip_w_response_size info))
     (PLC_tags (fst (complete_PLC_ScanList_TagInfos ?R ?plc)))
   = [(12, 14, 22, 4), (0, 0, 0, 0)]"
    by (simp add: complete_TagInfo_def PLC_tags_def fresh_TagInfo_def Let_def)
  from p a b show ?thesis by blast
qed

section \<open>The two write flags of a tag\<close>








end
